theory Spec2Isabelle
  imports Main "HOL-Library.Word"
begin

unbundle bit_operations_syntax

section \<open>The price level queue of plqu.c\<close>

text \<open>
  A shallow embedding of \<^verbatim>\<open>src/plqu.c\<close>. The C type \<^verbatim>\<open>size_t\<close> and the id type
  \<^verbatim>\<open>plqu_qid_t\<close> are 64-bit unsigned integers, so \<open>+\<close>, \<open>-\<close> and \<open>*\<close> wrap around.
  The value type \<^verbatim>\<open>plqu_val_t\<close>, its sentinel \<^verbatim>\<open>plqu_val_nil\<close> and the test
  \<^verbatim>\<open>plqu_val_nil_p\<close> are declared in a header that is not part of the source at hand:
  the value type is the type variable \<open>'v\<close>, and the functions that use the sentinel or the
  test take them as the parameters \<open>nil\<close> and \<open>nil_p\<close>.
\<close>

type_synonym size_t = "64 word"
type_synonym plqu_qid_t = "64 word"

text \<open>
  \<^verbatim>\<open>struct plqu_s\<close>. The pointer \<open>a\<close> is modelled by the buffer it points to: a list with
  one entry per allocated element, empty for the null pointer of a slot that never grew.
\<close>

record 'v plqu_s =
  z :: size_t
  a :: "'v list"
  head :: size_t
  tail :: size_t

text \<open>
  What C leaves undefined is a value of the model: an access outside the allocated buffer or
  outside the pool array, and the use of a null iterator queue. A function that returns
  \<open>Inl\<close> stands for a run of the C code that has left the language's defined behaviour;
  it is not a value the C function hands to its caller.
\<close>

datatype fault = OutOfBounds | NullPointer

definition PLQU_INIZ :: size_t where
  "PLQU_INIZ = 8"

text \<open>\<^verbatim>\<open>static struct plqu_s _pool[256U]\<close>: static storage, so every field starts as zero.\<close>

definition static_pool :: "'v plqu_s list" where
  "static_pool = replicate 256 \<lparr>z = 0, a = [], head = 0, tail = 0\<rparr>"

text \<open>Reading and writing one element of a buffer, \<^verbatim>\<open>q->a[slot]\<close>.\<close>

definition load :: "'v list \<Rightarrow> size_t \<Rightarrow> fault + 'v" where
  "load buf slot = (if unat slot < length buf then Inr (buf ! unat slot) else Inl OutOfBounds)"

definition store :: "'v list \<Rightarrow> size_t \<Rightarrow> 'v \<Rightarrow> fault + 'v list" where
  "store buf slot x =
     (if unat slot < length buf then Inr (buf[unat slot := x]) else Inl OutOfBounds)"

subsection \<open>The pool\<close>

text \<open>
  \<^verbatim>\<open>for (i = 0U; i < countof(_pool) && _pool[i].z & 1U; i++);\<close>
  The loop of \<^verbatim>\<open>_next_free\<close>, started at index \<open>n\<close>; \<^verbatim>\<open>countof(_pool)\<close> is the
  length of the array.
\<close>

function next_free_from :: "'v plqu_s list \<Rightarrow> nat \<Rightarrow> nat" where
  "next_free_from pool n =
     (if n < length pool \<and> z (pool ! n) AND 1 \<noteq> 0 then next_free_from pool (Suc n) else n)"
  by pat_completeness auto
termination
  by (relation "measure (\<lambda>(pool, n). length pool - n)") auto

declare next_free_from.simps [simp del]

definition next_free :: "'v plqu_s list \<Rightarrow> nat" where
  "next_free pool = next_free_from pool 0"

text \<open>
  \<^verbatim>\<open>make_plqu\<close>. A handle is the index of its slot in the pool. The C code does not
  compare the index it gets from \<^verbatim>\<open>_next_free\<close> with the size of the array: with no free
  slot it decrements \<^verbatim>\<open>_pool[256].z\<close>, a write outside the array.
\<close>

definition make_plqu :: "'v plqu_s list \<Rightarrow> fault + (nat \<times> 'v plqu_s list)" where
  "make_plqu pool =
     (let ipool = next_free pool in
      if ipool < length pool
      then Inr (ipool, pool[ipool := (pool ! ipool)\<lparr>z := z (pool ! ipool) - 1\<rparr>])
      else Inl OutOfBounds)"

text \<open>\<^verbatim>\<open>free_plqu\<close>, on the slot the handle points to.\<close>

definition free_plqu :: "'v plqu_s \<Rightarrow> 'v plqu_s" where
  "free_plqu qu = qu\<lparr>head := 0, tail := 0, z := z qu + 1\<rparr>"

subsection \<open>Queue operations\<close>

definition plqu_get :: "'v \<Rightarrow> 'v plqu_s \<Rightarrow> plqu_qid_t \<Rightarrow> fault + 'v" where
  "plqu_get nil qu n =
     (if \<not> (n > head qu \<and> n \<le> tail qu) then Inr nil
      else load (a qu) ((n - 1) AND z qu))"

definition plqu_put :: "'v plqu_s \<Rightarrow> plqu_qid_t \<Rightarrow> 'v \<Rightarrow> fault + (int \<times> 'v plqu_s)" where
  "plqu_put qu n x =
     (if \<not> (n > head qu \<and> n \<le> tail qu) then Inr (- 1, qu)
      else case store (a qu) ((n - 1) AND z qu) x of
             Inl e \<Rightarrow> Inl e
           | Inr buf \<Rightarrow> Inr (0, qu\<lparr>a := buf\<rparr>))"

text \<open>
  \<^verbatim>\<open>realloc(q->a, nuz * sizeof(*q->a))\<close>, counted in elements; the size of an element
  is not in the source at hand, and the product is taken not to wrap. Whether the allocation
  succeeds is the environment's choice: \<open>None\<close> is the null result; \<open>Some junk\<close> is a buffer
  of \<open>n\<close> elements that keeps the old contents and holds \<open>junk k\<close> in every new cell \<open>k\<close>.
\<close>

definition realloc :: "'v list \<Rightarrow> nat \<Rightarrow> (nat \<Rightarrow> 'v) option \<Rightarrow> 'v list option" where
  "realloc buf n mem =
     (case mem of
        None \<Rightarrow> None
      | Some junk \<Rightarrow> Some (map (\<lambda>k. if k < length buf then buf ! k else junk k) [0..<n]))"

text \<open>
  \<^verbatim>\<open>memcpy(buf + dst, buf, n * sizeof(*buf))\<close>: the first \<open>n\<close> elements are copied to the
  offset \<open>dst\<close> of the same buffer.
\<close>

definition memcpy :: "'v list \<Rightarrow> nat \<Rightarrow> nat \<Rightarrow> fault + 'v list" where
  "memcpy buf dst n =
     (if dst + n \<le> length buf \<and> n \<le> length buf
      then Inr (take dst buf @ take n buf @ drop (dst + n) buf)
      else Inl OutOfBounds)"

text \<open>
  The body of the \<^verbatim>\<open>if\<close> in \<^verbatim>\<open>plqu_add\<close> (lines 116 to 129): \<open>Inr None\<close> is the early
  \<^verbatim>\<open>return 0ULL\<close> after a failed allocation, \<open>Inr (Some qu')\<close> the queue after the resize.
\<close>

definition plqu_add_resize :: "'v plqu_s \<Rightarrow> (nat \<Rightarrow> 'v) option \<Rightarrow> fault + 'v plqu_s option" where
  "plqu_add_resize qu mem =
     (let nuz = (if (z qu + 1) * 2 \<noteq> 0 then (z qu + 1) * 2 else PLQU_INIZ) in
      case realloc (a qu) (unat nuz) mem of
        None \<Rightarrow> Inr None
      | Some tmp \<Rightarrow>
          (case memcpy tmp (unat (z qu + 1)) (unat (z qu + 1)) of
             Inl e \<Rightarrow> Inl e
           | Inr buf \<Rightarrow> Inr (Some (qu\<lparr>a := buf, z := nuz - 1\<rparr>))))"

text \<open>The last two lines of \<^verbatim>\<open>plqu_add\<close>: \<^verbatim>\<open>q->a[q->tail++ & q->z] = v; return q->tail;\<close>\<close>

definition plqu_add_store :: "'v plqu_s \<Rightarrow> 'v \<Rightarrow> fault + (plqu_qid_t \<times> 'v plqu_s)" where
  "plqu_add_store qu x =
     (case store (a qu) (tail qu AND z qu) x of
        Inl e \<Rightarrow> Inl e
      | Inr buf \<Rightarrow> Inr (tail qu + 1, qu\<lparr>a := buf, tail := tail qu + 1\<rparr>))"

definition plqu_add ::
  "'v plqu_s \<Rightarrow> 'v \<Rightarrow> (nat \<Rightarrow> 'v) option \<Rightarrow> fault + (plqu_qid_t \<times> 'v plqu_s)" where
  "plqu_add qu x mem =
     (if tail qu - head qu \<ge> z qu + 1
      then (case plqu_add_resize qu mem of
              Inl e \<Rightarrow> Inl e
            | Inr None \<Rightarrow> Inr (0, qu)
            | Inr (Some qu') \<Rightarrow> plqu_add_store qu' x)
      else plqu_add_store qu x)"

definition plqu_top :: "'v \<Rightarrow> 'v plqu_s \<Rightarrow> fault + 'v" where
  "plqu_top nil qu =
     (if head qu < tail qu then load (a qu) (head qu AND z qu) else Inr nil)"

definition plqu_pop :: "'v \<Rightarrow> 'v plqu_s \<Rightarrow> fault + ('v \<times> 'v plqu_s)" where
  "plqu_pop nil qu =
     (if head qu < tail qu
      then (case load (a qu) (head qu AND z qu) of
              Inl e \<Rightarrow> Inl e
            | Inr r \<Rightarrow> Inr (r, qu\<lparr>head := head qu + 1\<rparr>))
      else Inr (nil, qu))"

subsection \<open>Iterators\<close>

text \<open>
  \<^verbatim>\<open>plqu_iter_t\<close> is declared in the missing header; the code uses its fields \<open>q\<close> (the
  queue, a pointer into the pool or null), \<open>i\<close> (the position) and \<open>v\<close> (the value found).
\<close>

record 'v plqu_iter_t =
  q :: "nat option"
  i :: plqu_qid_t
  v :: 'v

text \<open>
  The \<^verbatim>\<open>while\<close> loop of \<^verbatim>\<open>plqu_iter_next\<close> from position \<open>n\<close>: \<open>Some (n', x)\<close> when it
  returns true with \<^verbatim>\<open>iter->i\<close> = \<open>n'\<close> and \<^verbatim>\<open>iter->v\<close> = \<open>x\<close>, \<open>None\<close> when it runs to the tail.
\<close>

function iter_scan ::
  "('v \<Rightarrow> bool) \<Rightarrow> 'v plqu_s \<Rightarrow> plqu_qid_t \<Rightarrow> fault + (plqu_qid_t \<times> 'v) option" where
  "iter_scan nil_p qu n =
     (if n < tail qu
      then (case load (a qu) (n AND z qu) of
              Inl e \<Rightarrow> Inl e
            | Inr x \<Rightarrow> if \<not> nil_p x then Inr (Some (n + 1, x)) else iter_scan nil_p qu (n + 1))
      else Inr None)"
  by pat_completeness auto
termination
proof (relation "measure (\<lambda>(nil_p, qu, n). unat (tail qu) - unat n)")
  show "wf (measure (\<lambda>(nil_p, qu, n). unat (tail qu) - unat n))"
    by simp
next
  fix nil_p :: "'v \<Rightarrow> bool" and qu :: "'v plqu_s" and n :: plqu_qid_t
  assume lt: "n < tail qu"
  then have "unat n < unat (tail qu)"
    by (simp add: word_less_nat_alt)
  moreover have "unat (tail qu) < 18446744073709551616"
    using unsigned_less [of "tail qu", where 'a = nat] by simp
  ultimately have "unat (n + 1) = Suc (unat n)" and "unat n < unat (tail qu)"
    by (simp_all add: unat_word_ariths)
  then show "((nil_p, qu, n + 1), (nil_p, qu, n))
      \<in> measure (\<lambda>(nil_p, qu, n). unat (tail qu) - unat n)"
    by simp
qed

declare iter_scan.simps [simp del]

definition plqu_iter_next ::
  "('v \<Rightarrow> bool) \<Rightarrow> 'v plqu_s list \<Rightarrow> 'v plqu_iter_t \<Rightarrow> fault + (bool \<times> 'v plqu_iter_t)" where
  "plqu_iter_next nil_p pool it =
     (case q it of
        None \<Rightarrow> Inr (False, it)
      | Some h \<Rightarrow>
          if \<not> h < length pool then Inl OutOfBounds
          else
            let qu = pool ! h;
                n = (if i it < head qu then head qu else i it)
            in case iter_scan nil_p qu n of
                 Inl e \<Rightarrow> Inl e
               | Inr (Some (n', x)) \<Rightarrow> Inr (True, it\<lparr>i := n', v := x\<rparr>)
               | Inr None \<Rightarrow> Inr (False, it\<lparr>i := tail qu + 1\<rparr>))"

definition plqu_iter_qid :: "'v plqu_s list \<Rightarrow> 'v plqu_iter_t \<Rightarrow> fault + plqu_qid_t" where
  "plqu_iter_qid pool it =
     (case q it of
        None \<Rightarrow> Inl NullPointer
      | Some h \<Rightarrow>
          if \<not> h < length pool then Inl OutOfBounds
          else Inr (if i it \<le> tail (pool ! h) then i it else 0))"

definition plqu_iter_put ::
  "'v plqu_s list \<Rightarrow> 'v plqu_iter_t \<Rightarrow> 'v \<Rightarrow> fault + (int \<times> 'v plqu_s list)" where
  "plqu_iter_put pool it x =
     (case q it of
        None \<Rightarrow> Inr (- 1, pool)
      | Some h \<Rightarrow>
          if i it = 0 then Inr (- 1, pool)
          else if \<not> h < length pool then Inl OutOfBounds
          else if i it > tail (pool ! h) then Inr (- 1, pool)
          else (case plqu_put (pool ! h) (i it) x of
                  Inl e \<Rightarrow> Inl e
                | Inr (r, qu') \<Rightarrow> Inr (r, pool[h := qu'])))"

definition plqu_iter_set_top ::
  "'v plqu_s list \<Rightarrow> 'v plqu_iter_t \<Rightarrow> fault + (int \<times> 'v plqu_s list)" where
  "plqu_iter_set_top pool it =
     (case q it of
        None \<Rightarrow> Inr (- 1, pool)
      | Some h \<Rightarrow>
          if i it = 0 then Inr (- 1, pool)
          else if \<not> h < length pool then Inl OutOfBounds
          else Inr (0, pool[h := (pool ! h)\<lparr>head := i it - 1\<rparr>]))"

section \<open>Well-formed queues\<close>

text \<open>
  The test of \<^verbatim>\<open>_next_free\<close>, \<^verbatim>\<open>_pool[i].z & 1U\<close>: an odd \<open>z\<close> marks a slot as in use.
\<close>

definition in_use :: "'v plqu_s \<Rightarrow> bool" where
  "in_use qu \<longleftrightarrow> z qu AND 1 \<noteq> 0"

text \<open>
  The shape of a slot that is in use: either it never grew (no buffer, \<open>z\<close> is \<open>0 - 1\<close>, nothing
  was appended), or its buffer has \<open>2 ^ k\<close> elements and \<open>z\<close> is \<open>2 ^ k - 1\<close>.
\<close>

definition queue_ok :: "'v plqu_s \<Rightarrow> bool" where
  "queue_ok qu \<longleftrightarrow>
     (z qu = - 1 \<and> a qu = [] \<and> tail qu = 0) \<or>
     (\<exists>k. 3 \<le> k \<and> k < 64 \<and> z qu = mask k \<and> length (a qu) = 2 ^ k)"

subsection \<open>Reachable pools\<close>

text \<open>
  The pools that the calls of the interface produce from the static pool, when every call
  that takes a queue is given a handle that is in use, as the one owner of a handle between
  \<open>make_plqu\<close> and \<open>free_plqu\<close> does. A call that ends in a fault has no successor.
  \<open>plqu_get\<close>, \<open>plqu_top\<close>, \<open>plqu_iter_next\<close> and \<open>plqu_iter_qid\<close> do not write to the
  pool. An iterator is a value of the caller: any position may come with the handle.
\<close>

inductive reachable :: "'v plqu_s list \<Rightarrow> bool" where
  init: "reachable static_pool"
| make: "reachable pool \<Longrightarrow> make_plqu pool = Inr (h, pool') \<Longrightarrow> reachable pool'"
| free: "reachable pool \<Longrightarrow> h < length pool \<Longrightarrow> in_use (pool ! h) \<Longrightarrow>
         reachable (pool[h := free_plqu (pool ! h)])"
| add: "reachable pool \<Longrightarrow> h < length pool \<Longrightarrow> in_use (pool ! h) \<Longrightarrow>
        plqu_add (pool ! h) x mem = Inr (n, qu') \<Longrightarrow> reachable (pool[h := qu'])"
| put: "reachable pool \<Longrightarrow> h < length pool \<Longrightarrow> in_use (pool ! h) \<Longrightarrow>
        plqu_put (pool ! h) n x = Inr (r, qu') \<Longrightarrow> reachable (pool[h := qu'])"
| pop: "reachable pool \<Longrightarrow> h < length pool \<Longrightarrow> in_use (pool ! h) \<Longrightarrow>
        plqu_pop nil (pool ! h) = Inr (x, qu') \<Longrightarrow> reachable (pool[h := qu'])"
| iter_put: "reachable pool \<Longrightarrow> q it = Some h \<Longrightarrow> h < length pool \<Longrightarrow> in_use (pool ! h) \<Longrightarrow>
        plqu_iter_put pool it x = Inr (r, pool') \<Longrightarrow> reachable pool'"
| iter_set_top: "reachable pool \<Longrightarrow> q it = Some h \<Longrightarrow> h < length pool \<Longrightarrow>
        in_use (pool ! h) \<Longrightarrow> plqu_iter_set_top pool it = Inr (r, pool') \<Longrightarrow> reachable pool'"

text \<open>
  The shape of a slot that is free: no elements, and \<open>z\<close> is 0 with no buffer or \<open>2 ^ k\<close> with
  a buffer of \<open>2 ^ k\<close> elements.
\<close>

definition free_ok :: "'v plqu_s \<Rightarrow> bool" where
  "free_ok qu \<longleftrightarrow>
     head qu = 0 \<and> tail qu = 0 \<and>
     ((z qu = 0 \<and> a qu = []) \<or>
      (\<exists>k. 3 \<le> k \<and> k < 64 \<and> z qu = 2 ^ k \<and> length (a qu) = 2 ^ k))"

definition pool_inv :: "'v plqu_s list \<Rightarrow> bool" where
  "pool_inv pool \<longleftrightarrow>
     length pool = 256 \<and> (\<forall>qu \<in> set pool. if in_use qu then queue_ok qu else free_ok qu)"

subsection \<open>A run of appends\<close>

text \<open>
  A caller that appends the values of a list one after the other, each with the answer of
  the allocator for that call, and collects the ids that \<open>plqu_add\<close> returns.
\<close>

fun plqu_add_all ::
  "'v plqu_s \<Rightarrow> ('v \<times> (nat \<Rightarrow> 'v) option) list \<Rightarrow> fault + (plqu_qid_t list \<times> 'v plqu_s)" where
  "plqu_add_all qu [] = Inr ([], qu)"
| "plqu_add_all qu ((x, mem) # rest) =
     (case plqu_add qu x mem of
        Inl e \<Rightarrow> Inl e
      | Inr (n, qu') \<Rightarrow>
          (case plqu_add_all qu' rest of
             Inl e \<Rightarrow> Inl e
           | Inr (ns, qu'') \<Rightarrow> Inr (n # ns, qu'')))"

text \<open>
  A well-formed queue from which nothing was removed and whose buffer starts with the values
  \<open>ys\<close>, appended so far.
\<close>

definition filled :: "'v plqu_s \<Rightarrow> 'v list \<Rightarrow> bool" where
  "filled qu ys \<longleftrightarrow>
     queue_ok qu \<and> head qu = 0 \<and> tail qu = word_of_nat (length ys) \<and>
     length ys \<le> 2 ^ 63 \<and> length ys \<le> length (a qu) \<and> take (length ys) (a qu) = ys"

section \<open>Properties\<close>

lemma queue_ok_grown:
  "3 \<le> k \<Longrightarrow> k < 64 \<Longrightarrow> z qu = mask k \<Longrightarrow> length (a qu) = 2 ^ k \<Longrightarrow> queue_ok qu"
  by (auto simp: queue_ok_def)

subsection \<open>Facts about 64-bit words\<close>

lemma unat_lt64: "unat (w :: 64 word) < 18446744073709551616"
  using unsigned_less [of w, where 'a = nat] by simp

lemma unat_Suc_less: "(n :: 64 word) < t \<Longrightarrow> unat (n + 1) = Suc (unat n)"
proof -
  assume "n < t"
  then have "unat n < unat t"
    by (simp add: word_less_nat_alt)
  with unat_lt64 [of t] show ?thesis
    by (simp add: unat_word_ariths)
qed

lemma unat_and_mask: "unat ((w :: 64 word) AND mask k) = unat w mod 2 ^ k"
proof -
  have "unat (w AND mask k) = unat (take_bit k w)"
    by (simp only: take_bit_eq_mask)
  also have "\<dots> = take_bit k (unat w)"
    by (rule unsigned_take_bit_eq)
  also have "\<dots> = unat w mod 2 ^ k"
    by (rule take_bit_eq_mod)
  finally show ?thesis .
qed

lemma load_ok:
  assumes "queue_ok qu" and "a qu \<noteq> []"
  shows "load (a qu) (w AND z qu) = Inr (a qu ! (unat w mod length (a qu)))"
proof -
  from assms obtain k where "z qu = mask k" and "length (a qu) = 2 ^ k"
    by (auto simp: queue_ok_def)
  then show ?thesis
    by (simp add: load_def unat_and_mask)
qed

lemma queue_ok_nonempty:
  assumes "queue_ok qu" and "m < tail qu"
  shows "a qu \<noteq> []"
  using assms by (auto simp: queue_ok_def)

lemma less_imp_sub_add: "(m :: 64 word) < n \<Longrightarrow> m < m + 1 \<and> m + 1 \<le> n"
proof -
  assume lt: "m < n"
  then have "unat (m + 1) = Suc (unat m)"
    by (rule unat_Suc_less)
  with lt show ?thesis
    by (simp add: word_less_nat_alt word_le_nat_alt)
qed

text \<open>
  C4. When the queue is full and the allocation fails, \<open>plqu_add\<close> returns the id 0 and the
  queue it was given, unchanged: buffer, head, tail and capacity field alike.
\<close>

theorem plqu_add_realloc_failure:
  "z qu + 1 \<le> tail qu - head qu \<Longrightarrow> plqu_add qu x None = Inr (0, qu)"
  by (simp add: plqu_add_def plqu_add_resize_def realloc_def)

theorem plqu_add_realloc_failure_witness:
  "z \<lparr>z = 7, a = [1, 2, 3, 4, 5, 6, 7, 8 :: nat], head = 0, tail = 8\<rparr> + 1
     \<le> tail \<lparr>z = 7, a = [1, 2, 3, 4, 5, 6, 7, 8 :: nat], head = 0, tail = 8\<rparr>
       - head \<lparr>z = 7, a = [1, 2, 3, 4, 5, 6, 7, 8 :: nat], head = 0, tail = 8\<rparr> \<and>
   plqu_add \<lparr>z = 7, a = [1, 2, 3, 4, 5, 6, 7, 8 :: nat], head = 0, tail = 8\<rparr> 9 None =
     Inr (0, \<lparr>z = 7, a = [1, 2, 3, 4, 5, 6, 7, 8], head = 0, tail = 8\<rparr>)"
proof -
  have full: "z \<lparr>z = 7, a = [1, 2, 3, 4, 5, 6, 7, 8 :: nat], head = 0, tail = 8\<rparr> + 1
     \<le> tail \<lparr>z = 7, a = [1, 2, 3, 4, 5, 6, 7, 8 :: nat], head = 0, tail = 8\<rparr>
       - head \<lparr>z = 7, a = [1, 2, 3, 4, 5, 6, 7, 8 :: nat], head = 0, tail = 8\<rparr>"
    by simp
  from full plqu_add_realloc_failure [OF full, of 9] show ?thesis
    by simp
qed

text \<open>
  C7. On a well-formed queue with \<open>head < tail\<close>, \<open>plqu_pop\<close> returns the value that
  \<open>plqu_get\<close> reads at the id \<open>head + 1\<close>, whatever it is, and adds one to \<open>head\<close>; with
  \<open>head = tail\<close> it returns the sentinel and leaves the queue as it is.
\<close>

theorem plqu_pop_front:
  assumes "queue_ok qu"
  shows "(head qu < tail qu \<longrightarrow>
            (\<exists>x. plqu_get nil qu (head qu + 1) = Inr x \<and>
                 plqu_pop nil qu = Inr (x, qu\<lparr>head := head qu + 1\<rparr>))) \<and>
         (head qu = tail qu \<longrightarrow> plqu_pop nil qu = Inr (nil, qu))"
proof (intro conjI impI)
  assume lt: "head qu < tail qu"
  with assms have ne: "a qu \<noteq> []"
    by (rule queue_ok_nonempty)
  from lt have "head qu < head qu + 1 \<and> head qu + 1 \<le> tail qu"
    by (rule less_imp_sub_add)
  then have "plqu_get nil qu (head qu + 1) = load (a qu) (head qu AND z qu)"
    by (simp add: plqu_get_def)
  with lt load_ok [OF assms ne, of "head qu"]
  show "\<exists>x. plqu_get nil qu (head qu + 1) = Inr x \<and>
            plqu_pop nil qu = Inr (x, qu\<lparr>head := head qu + 1\<rparr>)"
    by (simp add: plqu_pop_def)
next
  assume "head qu = tail qu"
  then show "plqu_pop nil qu = Inr (nil, qu)"
    by (simp add: plqu_pop_def)
qed

theorem plqu_pop_front_witness:
  "queue_ok \<lparr>z = 7, a = [0, 5, 0, 0, 0, 0, 0, 0 :: nat], head = 0, tail = 2\<rparr> \<and>
   plqu_pop 0 \<lparr>z = 7, a = [0, 5, 0, 0, 0, 0, 0, 0 :: nat], head = 0, tail = 2\<rparr> =
     Inr (0, \<lparr>z = 7, a = [0, 5, 0, 0, 0, 0, 0, 0], head = 1, tail = 2\<rparr>) \<and>
   plqu_pop 0 \<lparr>z = 7, a = [0, 5, 0, 0, 0, 0, 0, 0 :: nat], head = 2, tail = 2\<rparr> =
     Inr (0, \<lparr>z = 7, a = [0, 5, 0, 0, 0, 0, 0, 0], head = 2, tail = 2\<rparr>)"
proof -
  let ?b = "[0, 5, 0, 0, 0, 0, 0, 0 :: nat]"
  have m: "(7 :: 64 word) = mask 3"
    by (simp add: mask_eq_exp_minus_1)
  have ok1: "queue_ok \<lparr>z = 7, a = ?b, head = 0, tail = 2\<rparr>"
    by (rule queue_ok_grown [of 3]) (simp_all add: m)
  have ok2: "queue_ok \<lparr>z = 7, a = ?b, head = 2, tail = 2\<rparr>"
    by (rule queue_ok_grown [of 3]) (simp_all add: m)
  from plqu_pop_front [OF ok1, of 0] plqu_pop_front [OF ok2, of 0] ok1
  show ?thesis
    by (simp add: plqu_get_def load_def)
qed

subsection \<open>The iterator's scan\<close>

lemma word_succ_facts:
  fixes n t :: "64 word"
  assumes "n < t"
  shows "n < n + 1" and "n + 1 \<le> t" and "n + 1 - 1 = n" and "n + 1 \<noteq> 0"
    and "\<And>j. n < j \<longleftrightarrow> j = n + 1 \<or> n + 1 < j"
proof -
  from assms have s: "unat (n + 1) = Suc (unat n)"
    by (rule unat_Suc_less)
  with assms show "n < n + 1" and "n + 1 \<le> t"
    by (simp_all add: word_less_nat_alt word_le_nat_alt)
  show "n + 1 - 1 = n"
    by simp
  from s show "n + 1 \<noteq> 0"
    by auto
  fix j
  from s show "n < j \<longleftrightarrow> j = n + 1 \<or> n + 1 < j"
    by (auto simp: word_less_nat_alt word_unat_eq_iff)
qed

lemma iter_scan_spec:
  assumes "queue_ok qu"
  shows "case iter_scan nil_p qu n of
           Inl e \<Rightarrow> False
         | Inr None \<Rightarrow>
             (\<forall>j. n < j \<and> j \<le> tail qu \<longrightarrow>
                (\<exists>y. load (a qu) ((j - 1) AND z qu) = Inr y \<and> nil_p y))
         | Inr (Some (k, x)) \<Rightarrow>
             n < k \<and> k \<le> tail qu \<and> load (a qu) ((k - 1) AND z qu) = Inr x \<and> \<not> nil_p x \<and>
             (\<forall>j. n < j \<and> j < k \<longrightarrow>
                (\<exists>y. load (a qu) ((j - 1) AND z qu) = Inr y \<and> nil_p y))"
  using assms
proof (induction nil_p qu n rule: iter_scan.induct)
  case (1 nil_p qu n)
  show ?case
  proof (cases "n < tail qu")
    case False
    then show ?thesis
      by (subst iter_scan.simps) auto
  next
    case True
    note f = word_succ_facts [OF True]
    from "1.prems" True have "a qu \<noteq> []"
      by (rule queue_ok_nonempty)
    with "1.prems" obtain x where x: "load (a qu) (n AND z qu) = Inr x"
      by (auto dest: load_ok)
    show ?thesis
    proof (cases "nil_p x")
      case False
      with True x f show ?thesis
        by (subst iter_scan.simps) auto
    next
      case nil: True
      have step: "iter_scan nil_p qu n = iter_scan nil_p qu (n + 1)"
        using True x nil by (subst iter_scan.simps) simp
      from "1.IH" [OF True x] nil "1.prems"
      have IH: "case iter_scan nil_p qu (n + 1) of
           Inl e \<Rightarrow> False
         | Inr None \<Rightarrow>
             (\<forall>j. n + 1 < j \<and> j \<le> tail qu \<longrightarrow>
                (\<exists>y. load (a qu) ((j - 1) AND z qu) = Inr y \<and> nil_p y))
         | Inr (Some (k, x)) \<Rightarrow>
             n + 1 < k \<and> k \<le> tail qu \<and> load (a qu) ((k - 1) AND z qu) = Inr x \<and> \<not> nil_p x \<and>
             (\<forall>j. n + 1 < j \<and> j < k \<longrightarrow>
                (\<exists>y. load (a qu) ((j - 1) AND z qu) = Inr y \<and> nil_p y))"
        by simp
      show ?thesis
      proof (cases "iter_scan nil_p qu (n + 1)")
        case (Inl e)
        with IH show ?thesis by simp
      next
        case (Inr r)
        show ?thesis
        proof (cases r)
          case None
          with IH Inr x nil show ?thesis
            unfolding step by (auto simp: f(5) f(3))
        next
          case (Some p)
          obtain k y where "p = (k, y)" by (cases p)
          with IH Inr Some x nil show ?thesis
            unfolding step by (auto simp: f(5) f(3))
        qed
      qed
    qed
  qed
qed

text \<open>
  C6. \<open>plqu_iter_next\<close> on an iterator without a queue returns false and leaves the iterator
  as it is. On an iterator of a well-formed queue it starts from the larger of \<open>i\<close> and \<open>head\<close>
  and either returns true, with \<open>i\<close> at the smallest id above the start and up to \<open>tail\<close>
  whose value passes the test \<open>\<not> nil_p\<close>, and \<open>v\<close> that value, or returns false with \<open>i\<close> at
  \<open>tail + 1\<close> when every id of that range holds a value with \<open>nil_p\<close>. The function returns
  the iterator only: it has no write to the queue.
\<close>

theorem plqu_iter_next_spec:
  "(q it = None \<longrightarrow> plqu_iter_next nil_p pool it = Inr (False, it)) \<and>
   (\<forall>h. q it = Some h \<and> h < length pool \<and> queue_ok (pool ! h) \<longrightarrow>
      (\<exists>k x. plqu_iter_next nil_p pool it = Inr (True, it\<lparr>i := k, v := x\<rparr>) \<and>
             max (i it) (head (pool ! h)) < k \<and> k \<le> tail (pool ! h) \<and>
             plqu_get nil (pool ! h) k = Inr x \<and> \<not> nil_p x \<and>
             (\<forall>j. max (i it) (head (pool ! h)) < j \<and> j < k \<longrightarrow>
                (\<exists>y. plqu_get nil (pool ! h) j = Inr y \<and> nil_p y))) \<or>
      (plqu_iter_next nil_p pool it = Inr (False, it\<lparr>i := tail (pool ! h) + 1\<rparr>) \<and>
       (\<forall>j. max (i it) (head (pool ! h)) < j \<and> j \<le> tail (pool ! h) \<longrightarrow>
          (\<exists>y. plqu_get nil (pool ! h) j = Inr y \<and> nil_p y))))"
proof (intro conjI allI impI)
  assume "q it = None"
  then show "plqu_iter_next nil_p pool it = Inr (False, it)"
    by (simp add: plqu_iter_next_def)
next
  fix h
  assume "q it = Some h \<and> h < length pool \<and> queue_ok (pool ! h)"
  then have b: "q it = Some h" and h: "h < length pool" and ok: "queue_ok (pool ! h)"
    by simp_all
  let ?qu = "pool ! h"
  let ?n = "max (i it) (head ?qu)"
  have n: "(if i it < head ?qu then head ?qu else i it) = ?n"
    by (auto simp: max_def)
  have get: "plqu_get nil ?qu j = load (a ?qu) ((j - 1) AND z ?qu)"
    if "?n < j" and "j \<le> tail ?qu" for j
  proof -
    from that have "head ?qu < j"
      by (simp add: max_less_iff_conj)
    with that show ?thesis
      by (simp add: plqu_get_def)
  qed
  have nxt: "plqu_iter_next nil_p pool it =
      (case iter_scan nil_p ?qu ?n of
         Inl e \<Rightarrow> Inl e
       | Inr (Some (n', x)) \<Rightarrow> Inr (True, it\<lparr>i := n', v := x\<rparr>)
       | Inr None \<Rightarrow> Inr (False, it\<lparr>i := tail ?qu + 1\<rparr>))"
    using b h by (simp add: plqu_iter_next_def Let_def n)
  from iter_scan_spec [OF ok, where nil_p = nil_p and n = ?n] show
    "(\<exists>k x. plqu_iter_next nil_p pool it = Inr (True, it\<lparr>i := k, v := x\<rparr>) \<and>
             ?n < k \<and> k \<le> tail ?qu \<and>
             plqu_get nil ?qu k = Inr x \<and> \<not> nil_p x \<and>
             (\<forall>j. ?n < j \<and> j < k \<longrightarrow> (\<exists>y. plqu_get nil ?qu j = Inr y \<and> nil_p y))) \<or>
      (plqu_iter_next nil_p pool it = Inr (False, it\<lparr>i := tail ?qu + 1\<rparr>) \<and>
       (\<forall>j. ?n < j \<and> j \<le> tail ?qu \<longrightarrow> (\<exists>y. plqu_get nil ?qu j = Inr y \<and> nil_p y)))"
  proof (cases "iter_scan nil_p ?qu ?n")
    case (Inl e)
    then show ?thesis
      using iter_scan_spec [OF ok, where nil_p = nil_p and n = ?n] by simp
  next
    case (Inr r)
    show ?thesis
    proof (cases r)
      case None
      with Inr iter_scan_spec [OF ok, where nil_p = nil_p and n = ?n]
      have "\<forall>j. ?n < j \<and> j \<le> tail ?qu \<longrightarrow>
              (\<exists>y. load (a ?qu) ((j - 1) AND z ?qu) = Inr y \<and> nil_p y)"
        by simp
      then have "\<forall>j. ?n < j \<and> j \<le> tail ?qu \<longrightarrow> (\<exists>y. plqu_get nil ?qu j = Inr y \<and> nil_p y)"
        using get by simp
      moreover from None Inr have "plqu_iter_next nil_p pool it = Inr (False, it\<lparr>i := tail ?qu + 1\<rparr>)"
        by (simp add: nxt)
      ultimately show ?thesis
        by blast
    next
      case (Some p)
      obtain k x where p: "p = (k, x)" by (cases p)
      with Some Inr iter_scan_spec [OF ok, where nil_p = nil_p and n = ?n]
      have k: "?n < k" "k \<le> tail ?qu" "load (a ?qu) ((k - 1) AND z ?qu) = Inr x" "\<not> nil_p x"
        and below: "\<forall>j. ?n < j \<and> j < k \<longrightarrow>
              (\<exists>y. load (a ?qu) ((j - 1) AND z ?qu) = Inr y \<and> nil_p y)"
        by simp_all
      from k have "plqu_get nil ?qu k = Inr x"
        using get by simp
      moreover have "\<forall>j. ?n < j \<and> j < k \<longrightarrow> (\<exists>y. plqu_get nil ?qu j = Inr y \<and> nil_p y)"
      proof (intro allI impI)
        fix j assume j: "?n < j \<and> j < k"
        with k(2) have "j \<le> tail ?qu" by auto
        with j below get show "\<exists>y. plqu_get nil ?qu j = Inr y \<and> nil_p y"
          by simp
      qed
      moreover from p Some Inr have "plqu_iter_next nil_p pool it = Inr (True, it\<lparr>i := k, v := x\<rparr>)"
        by (simp add: nxt)
      ultimately show ?thesis
        using k by blast
    qed
  qed
qed

lemma length_static_pool: "length (static_pool :: 'v plqu_s list) = 256"
  by (simp add: static_pool_def)

lemma static_pool_update_nth: "h < 256 \<Longrightarrow> (static_pool [h := qu]) ! h = qu"
  by (simp add: static_pool_def)

theorem plqu_iter_next_spec_witness:
  "q \<lparr>q = Some 0, i = 0, v = 0 :: nat\<rparr> = Some 0 \<and>
   0 < length (static_pool [0 := \<lparr>z = 7, a = [11, 0, 13, 0, 0, 0, 0, 0 :: nat], head = 1, tail = 3\<rparr>]) \<and>
   queue_ok (static_pool [0 := \<lparr>z = 7, a = [11, 0, 13, 0, 0, 0, 0, 0 :: nat], head = 1, tail = 3\<rparr>] ! 0) \<and>
   plqu_iter_next (\<lambda>x. x = 0)
     (static_pool [0 := \<lparr>z = 7, a = [11, 0, 13, 0, 0, 0, 0, 0 :: nat], head = 1, tail = 3\<rparr>])
     \<lparr>q = Some 0, i = 0, v = 0\<rparr> = Inr (True, \<lparr>q = Some 0, i = 3, v = 13\<rparr>) \<and>
   plqu_iter_next (\<lambda>x. x = 0)
     (static_pool [0 := \<lparr>z = 7, a = [11, 0, 13, 0, 0, 0, 0, 0 :: nat], head = 1, tail = 3\<rparr>])
     \<lparr>q = Some 0, i = 3, v = 13\<rparr> = Inr (False, \<lparr>q = Some 0, i = 4, v = 13\<rparr>) \<and>
   plqu_iter_next (\<lambda>x. x = 0)
     (static_pool [0 := \<lparr>z = 7, a = [11, 0, 13, 0, 0, 0, 0, 0 :: nat], head = 1, tail = 3\<rparr>])
     \<lparr>q = None, i = 0, v = 0\<rparr> = Inr (False, \<lparr>q = None, i = 0, v = 0\<rparr>)"
proof -
  let ?Q = "\<lparr>z = 7, a = [11, 0, 13, 0, 0, 0, 0, 0 :: nat], head = 1, tail = 3\<rparr>"
  let ?P = "static_pool [0 := ?Q]"
  let ?start = "\<lparr>q = Some 0, i = 0, v = 0 :: nat\<rparr>"
  let ?found = "\<lparr>q = Some 0, i = 3, v = 13 :: nat\<rparr>"
  let ?unbound = "\<lparr>q = None, i = 0, v = 0 :: nat\<rparr>"
  have m: "(7 :: 64 word) = mask 3"
    by (simp add: mask_eq_exp_minus_1)
  have P0: "?P ! 0 = ?Q"
    by (rule static_pool_update_nth) simp
  have len: "0 < length ?P"
    by (simp add: length_static_pool)
  have ok: "queue_ok (?P ! 0)"
    unfolding P0 by (rule queue_ok_grown [of 3]) (simp_all add: m)
  have run: "plqu_iter_next (\<lambda>x. x = 0) ?P ?start = Inr (True, ?found)"
    by (simp add: plqu_iter_next_def P0 length_static_pool iter_scan.simps load_def)
  have stop: "plqu_iter_next (\<lambda>x. x = 0) ?P ?found = Inr (False, \<lparr>q = Some 0, i = 4, v = 13\<rparr>)"
    by (simp add: plqu_iter_next_def P0 length_static_pool iter_scan.simps load_def)
  from plqu_iter_next_spec [of ?unbound "\<lambda>x. x = 0" ?P 0]
  have "plqu_iter_next (\<lambda>x. x = 0) ?P ?unbound = Inr (False, ?unbound)"
    by simp
  with plqu_iter_next_spec [of ?start "\<lambda>x. x = 0" ?P 0]
    plqu_iter_next_spec [of ?found "\<lambda>x. x = 0" ?P 0] ok len run stop
  show ?thesis
    by simp
qed

subsection \<open>Committing an iterator\<close>

lemma iter_scan_found_nonzero:
  "iter_scan nil_p qu n = Inr (Some (k, x)) \<Longrightarrow> k \<noteq> 0"
proof (induction nil_p qu n rule: iter_scan.induct)
  case (1 nil_p qu n)
  show ?case
  proof (cases "n < tail qu")
    case False
    with "1.prems" show ?thesis
      by (subst (asm) iter_scan.simps) simp
  next
    case True
    from "1.prems" True obtain y where y: "load (a qu) (n AND z qu) = Inr y"
      by (subst (asm) iter_scan.simps) (auto split: sum.splits)
    show ?thesis
    proof (cases "nil_p y")
      case False
      with "1.prems" True y have "k = n + 1"
        by (subst (asm) iter_scan.simps) simp
      with word_succ_facts(4) [OF True] show ?thesis
        by simp
    next
      case nil: True
      with "1.prems" True y have "iter_scan nil_p qu (n + 1) = Inr (Some (k, x))"
        by (subst (asm) iter_scan.simps) simp
      with "1.IH" [OF True y] nil show ?thesis
        by simp
    qed
  qed
qed

lemma plqu_iter_next_found:
  assumes "plqu_iter_next nil_p pool it = Inr (True, it')"
  shows "q it' = q it \<and> i it' \<noteq> 0"
proof (cases "q it")
  case None
  with assms show ?thesis
    by (simp add: plqu_iter_next_def)
next
  case (Some h)
  with assms show ?thesis
    by (auto simp: plqu_iter_next_def Let_def split: if_splits sum.splits option.splits
          dest: iter_scan_found_nonzero)
qed

text \<open>
  C5, as the code has it. \<open>plqu_iter_set_top\<close> returns \<open>- 1\<close> and leaves the pool as it is
  when the iterator has no queue or its position is 0. For every other position of an
  iterator with a queue, also a position beyond \<open>tail\<close>, it returns 0 and sets the \<open>head\<close>
  of the queue to \<open>i - 1\<close>; this is so in particular for the iterator that \<open>plqu_iter_next\<close>
  hands back when it returns true.
\<close>

theorem plqu_iter_set_top_result:
  "(q it = None \<or> i it = 0 \<longrightarrow> plqu_iter_set_top pool it = Inr (- 1, pool)) \<and>
   (\<forall>h. q it = Some h \<and> h < length pool \<and> i it \<noteq> 0 \<longrightarrow>
      plqu_iter_set_top pool it = Inr (0, pool[h := (pool ! h)\<lparr>head := i it - 1\<rparr>])) \<and>
   (\<forall>h it0. q it0 = Some h \<and> h < length pool \<and>
      plqu_iter_next nil_p pool it0 = Inr (True, it) \<longrightarrow>
      plqu_iter_set_top pool it = Inr (0, pool[h := (pool ! h)\<lparr>head := i it - 1\<rparr>]))"
proof (intro conjI allI impI)
  assume "q it = None \<or> i it = 0"
  then show "plqu_iter_set_top pool it = Inr (- 1, pool)"
    by (auto simp: plqu_iter_set_top_def split: option.splits)
next
  fix h
  assume "q it = Some h \<and> h < length pool \<and> i it \<noteq> 0"
  then show "plqu_iter_set_top pool it = Inr (0, pool[h := (pool ! h)\<lparr>head := i it - 1\<rparr>])"
    by (simp add: plqu_iter_set_top_def)
next
  fix h it0
  assume *: "q it0 = Some h \<and> h < length pool \<and> plqu_iter_next nil_p pool it0 = Inr (True, it)"
  then have "q it = q it0 \<and> i it \<noteq> 0"
    by (auto dest: plqu_iter_next_found)
  with * show "plqu_iter_set_top pool it = Inr (0, pool[h := (pool ! h)\<lparr>head := i it - 1\<rparr>])"
    by (simp add: plqu_iter_set_top_def)
qed

theorem plqu_iter_set_top_result_witness:
  "plqu_iter_next (\<lambda>x. x = 0)
     (static_pool [0 := \<lparr>z = 7, a = [11, 0, 13, 0, 0, 0, 0, 0 :: nat], head = 1, tail = 3\<rparr>])
     \<lparr>q = Some 0, i = 0, v = 0\<rparr> = Inr (True, \<lparr>q = Some 0, i = 3, v = 13\<rparr>) \<and>
   plqu_iter_set_top
     (static_pool [0 := \<lparr>z = 7, a = [11, 0, 13, 0, 0, 0, 0, 0 :: nat], head = 1, tail = 3\<rparr>])
     \<lparr>q = Some 0, i = 3, v = 13\<rparr> =
   Inr (0, static_pool [0 := \<lparr>z = 7, a = [11, 0, 13, 0, 0, 0, 0, 0 :: nat], head = 2, tail = 3\<rparr>]) \<and>
   plqu_iter_set_top
     (static_pool [0 := \<lparr>z = 7, a = [11, 0, 13, 0, 0, 0, 0, 0 :: nat], head = 1, tail = 3\<rparr>])
     \<lparr>q = Some 0, i = 0, v = 13\<rparr> =
   Inr (- 1, static_pool [0 := \<lparr>z = 7, a = [11, 0, 13, 0, 0, 0, 0, 0 :: nat], head = 1, tail = 3\<rparr>])"
proof -
  let ?Q = "\<lparr>z = 7, a = [11, 0, 13, 0, 0, 0, 0, 0 :: nat], head = 1, tail = 3\<rparr>"
  let ?P = "static_pool [0 := ?Q]"
  let ?start = "\<lparr>q = Some 0, i = 0, v = 0 :: nat\<rparr>"
  let ?it = "\<lparr>q = Some 0, i = 3, v = 13 :: nat\<rparr>"
  have P0: "?P ! 0 = ?Q"
    by (rule static_pool_update_nth) simp
  have run: "plqu_iter_next (\<lambda>x. x = 0) ?P ?start = Inr (True, ?it)"
    by (simp add: plqu_iter_next_def P0 length_static_pool iter_scan.simps load_def)
  from plqu_iter_set_top_result [of ?it ?P "\<lambda>x. x = 0"] run
  have "plqu_iter_set_top ?P ?it = Inr (0, ?P[0 := (?P ! 0)\<lparr>head := i ?it - 1\<rparr>])"
    by (simp only: length_list_update length_static_pool) simp
  moreover from plqu_iter_set_top_result [of "\<lparr>q = Some 0, i = 0, v = 13 :: nat\<rparr>" ?P "\<lambda>x. x = 0"]
  have "plqu_iter_set_top ?P \<lparr>q = Some 0, i = 0, v = 13\<rparr> = Inr (- 1, ?P)"
    by simp
  ultimately show ?thesis
    using run by (simp add: P0)
qed

text \<open>
  C5, as the claim has it, fails for an iterator that has run to the end. The queue holds one
  value; the iterator stands on its id 1. The next advance returns false and leaves \<open>i\<close> at
  \<open>tail + 1 = 2\<close>, \<open>plqu_iter_qid\<close> then reports the id 0, and \<open>plqu_iter_set_top\<close> all the
  same returns 0 and moves \<open>head\<close> to 1.
\<close>

theorem plqu_iter_set_top_exhausted_succeeds:
  "plqu_iter_next (\<lambda>x. x = 0)
     (static_pool [0 := \<lparr>z = 7, a = [11, 0, 0, 0, 0, 0, 0, 0 :: nat], head = 0, tail = 1\<rparr>])
     \<lparr>q = Some 0, i = 1, v = 11\<rparr> = Inr (False, \<lparr>q = Some 0, i = 2, v = 11\<rparr>) \<and>
   plqu_iter_qid
     (static_pool [0 := \<lparr>z = 7, a = [11, 0, 0, 0, 0, 0, 0, 0 :: nat], head = 0, tail = 1\<rparr>])
     \<lparr>q = Some 0, i = 2, v = 11\<rparr> = Inr 0 \<and>
   plqu_iter_set_top
     (static_pool [0 := \<lparr>z = 7, a = [11, 0, 0, 0, 0, 0, 0, 0 :: nat], head = 0, tail = 1\<rparr>])
     \<lparr>q = Some 0, i = 2, v = 11\<rparr> =
   Inr (0, static_pool [0 := \<lparr>z = 7, a = [11, 0, 0, 0, 0, 0, 0, 0 :: nat], head = 1, tail = 1\<rparr>])"
proof -
  let ?Q = "\<lparr>z = 7, a = [11, 0, 0, 0, 0, 0, 0, 0 :: nat], head = 0, tail = 1\<rparr>"
  let ?P = "static_pool [0 := ?Q]"
  have P0: "?P ! 0 = ?Q"
    by (rule static_pool_update_nth) simp
  show ?thesis
    by (simp add: plqu_iter_next_def plqu_iter_qid_def plqu_iter_set_top_def
          P0 length_static_pool iter_scan.simps load_def word_le_nat_alt word_less_nat_alt)
qed

lemma word_pred_less: "(n :: 64 word) \<noteq> 0 \<Longrightarrow> n - 1 < n"
proof -
  assume "n \<noteq> 0"
  then have "unat (n - 1) = unat n - 1" and "0 < unat n"
    by (simp_all add: unat_minus_one unat_gt_0)
  then show ?thesis
    by (simp add: word_less_nat_alt)
qed

text \<open>
  C10. For an iterator with a queue and a position other than 0, \<open>plqu_iter_set_top\<close>
  returns 0 and sets \<open>head\<close> to \<open>i - 1\<close> without comparing \<open>i\<close> with \<open>head\<close> or \<open>tail\<close>.
  With \<open>i\<close> at or before \<open>head\<close> the new \<open>head\<close> is below the old one, and every id between
  them that is not beyond \<open>tail\<close>, for which \<open>plqu_get\<close> returned the sentinel before, now
  reads its buffer cell. With \<open>i = tail + 1\<close> the new \<open>head\<close> is \<open>tail\<close>: \<open>plqu_top\<close> and every
  \<open>plqu_get\<close> return the sentinel.
\<close>

theorem plqu_iter_set_top_unclamped:
  assumes "q it = Some h" and "h < length pool" and "i it \<noteq> 0"
  shows "plqu_iter_set_top pool it = Inr (0, pool[h := (pool ! h)\<lparr>head := i it - 1\<rparr>]) \<and>
         (i it \<le> head (pool ! h) \<longrightarrow>
            i it - 1 < head (pool ! h) \<and>
            (\<forall>n. i it - 1 < n \<and> n \<le> head (pool ! h) \<and> n \<le> tail (pool ! h) \<longrightarrow>
               plqu_get nil (pool ! h) n = Inr nil \<and>
               plqu_get nil ((pool ! h)\<lparr>head := i it - 1\<rparr>) n =
                 load (a (pool ! h)) ((n - 1) AND z (pool ! h)))) \<and>
         (i it = tail (pool ! h) + 1 \<longrightarrow>
            head ((pool ! h)\<lparr>head := i it - 1\<rparr>) = tail ((pool ! h)\<lparr>head := i it - 1\<rparr>) \<and>
            plqu_top nil ((pool ! h)\<lparr>head := i it - 1\<rparr>) = Inr nil \<and>
            (\<forall>n. plqu_get nil ((pool ! h)\<lparr>head := i it - 1\<rparr>) n = Inr nil))"
proof (intro conjI impI allI)
  from assms show "plqu_iter_set_top pool it = Inr (0, pool[h := (pool ! h)\<lparr>head := i it - 1\<rparr>])"
    by (simp add: plqu_iter_set_top_def)
next
  assume "i it \<le> head (pool ! h)"
  with word_pred_less [OF assms(3)] show "i it - 1 < head (pool ! h)"
    by simp
next
  fix n
  assume "i it - 1 < n \<and> n \<le> head (pool ! h) \<and> n \<le> tail (pool ! h)"
  then show "plqu_get nil (pool ! h) n = Inr nil"
    and "plqu_get nil ((pool ! h)\<lparr>head := i it - 1\<rparr>) n =
           load (a (pool ! h)) ((n - 1) AND z (pool ! h))"
    by (simp_all add: plqu_get_def not_less)
next
  assume "i it = tail (pool ! h) + 1"
  then show "head ((pool ! h)\<lparr>head := i it - 1\<rparr>) = tail ((pool ! h)\<lparr>head := i it - 1\<rparr>)"
    by simp
next
  assume "i it = tail (pool ! h) + 1"
  then show "plqu_top nil ((pool ! h)\<lparr>head := i it - 1\<rparr>) = Inr nil"
    by (simp add: plqu_top_def)
next
  fix n
  assume "i it = tail (pool ! h) + 1"
  then show "plqu_get nil ((pool ! h)\<lparr>head := i it - 1\<rparr>) n = Inr nil"
    by (auto simp: plqu_get_def)
qed

theorem plqu_iter_set_top_unclamped_witness:
  "q \<lparr>q = Some 0, i = 1, v = 11 :: nat\<rparr> = Some 0 \<and>
   0 < length (static_pool [0 := \<lparr>z = 7, a = [11, 12, 13, 0, 0, 0, 0, 0 :: nat], head = 2, tail = 3\<rparr>]) \<and>
   i \<lparr>q = Some 0, i = 1, v = 11 :: nat\<rparr> \<noteq> 0 \<and>
   plqu_iter_set_top
     (static_pool [0 := \<lparr>z = 7, a = [11, 12, 13, 0, 0, 0, 0, 0 :: nat], head = 2, tail = 3\<rparr>])
     \<lparr>q = Some 0, i = 1, v = 11\<rparr> =
   Inr (0, static_pool [0 := \<lparr>z = 7, a = [11, 12, 13, 0, 0, 0, 0, 0 :: nat], head = 0, tail = 3\<rparr>]) \<and>
   plqu_get 0 \<lparr>z = 7, a = [11, 12, 13, 0, 0, 0, 0, 0 :: nat], head = 2, tail = 3\<rparr> 2 = Inr 0 \<and>
   plqu_get 0 \<lparr>z = 7, a = [11, 12, 13, 0, 0, 0, 0, 0 :: nat], head = 0, tail = 3\<rparr> 2 = Inr 12 \<and>
   plqu_iter_set_top
     (static_pool [0 := \<lparr>z = 7, a = [11, 12, 13, 0, 0, 0, 0, 0 :: nat], head = 2, tail = 3\<rparr>])
     \<lparr>q = Some 0, i = 4, v = 13\<rparr> =
   Inr (0, static_pool [0 := \<lparr>z = 7, a = [11, 12, 13, 0, 0, 0, 0, 0 :: nat], head = 3, tail = 3\<rparr>]) \<and>
   plqu_top 0 \<lparr>z = 7, a = [11, 12, 13, 0, 0, 0, 0, 0 :: nat], head = 3, tail = 3\<rparr> = Inr 0"
proof -
  let ?Q = "\<lparr>z = 7, a = [11, 12, 13, 0, 0, 0, 0, 0 :: nat], head = 2, tail = 3\<rparr>"
  let ?P = "static_pool [0 := ?Q]"
  let ?cur = "\<lparr>q = Some 0, i = 1, v = 11 :: nat\<rparr>"
  let ?past = "\<lparr>q = Some 0, i = 4, v = 13 :: nat\<rparr>"
  have P0: "?P ! 0 = ?Q"
    by (rule static_pool_update_nth) simp
  have b: "q ?cur = Some 0" and len: "0 < length ?P" and nz: "i ?cur \<noteq> 0"
    by (simp_all add: length_static_pool)
  have b': "q ?past = Some 0" and nz': "i ?past \<noteq> 0"
    by simp_all
  from plqu_iter_set_top_unclamped [OF b len nz, of 0]
  have "plqu_iter_set_top ?P ?cur = Inr (0, ?P[0 := (?P ! 0)\<lparr>head := i ?cur - 1\<rparr>])"
    by (rule conjunct1)
  then have stale: "plqu_iter_set_top ?P ?cur =
      Inr (0, static_pool [0 := \<lparr>z = 7, a = [11, 12, 13, 0, 0, 0, 0, 0 :: nat], head = 0, tail = 3\<rparr>])"
    by (simp add: P0)
  have e: "i ?past = tail (?P ! 0) + 1"
    by (simp add: P0)
  from plqu_iter_set_top_unclamped [OF b' len nz', of 0]
  have "plqu_iter_set_top ?P ?past = Inr (0, ?P[0 := (?P ! 0)\<lparr>head := i ?past - 1\<rparr>])"
    and "i ?past = tail (?P ! 0) + 1 \<longrightarrow>
         plqu_top 0 ((?P ! 0)\<lparr>head := i ?past - 1\<rparr>) = Inr 0"
    by blast+
  with e have past: "plqu_iter_set_top ?P ?past =
      Inr (0, static_pool [0 := \<lparr>z = 7, a = [11, 12, 13, 0, 0, 0, 0, 0 :: nat], head = 3, tail = 3\<rparr>])"
    and top: "plqu_top 0 \<lparr>z = 7, a = [11, 12, 13, 0, 0, 0, 0, 0 :: nat], head = 3, tail = 3\<rparr> = Inr 0"
    by (simp_all add: P0)
  have "plqu_get 0 ?Q 2 = Inr 0"
    by (simp add: plqu_get_def)
  moreover have "plqu_get 0 \<lparr>z = 7, a = [11, 12, 13, 0, 0, 0, 0, 0 :: nat], head = 0, tail = 3\<rparr> 2 = Inr 12"
    by (simp add: plqu_get_def load_def)
  ultimately show ?thesis
    using b len nz stale past top by simp
qed

subsection \<open>Growth\<close>

lemma unat_exp64: "k < 64 \<Longrightarrow> unat ((2 :: 64 word) ^ k) = 2 ^ k"
proof -
  assume k: "k < 64"
  have "(2 :: 64 word) ^ k = word_of_nat (2 ^ k)"
    by simp
  then have "unat ((2 :: 64 word) ^ k) = (2 ^ k) mod 2 ^ LENGTH(64)"
    by (simp only: unat_of_nat)
  moreover from k have "(2 :: nat) ^ k < 2 ^ LENGTH(64)"
    by (simp only: power_strict_increasing_iff len_bit0 len_num1)
  ultimately show ?thesis
    by (simp only: mod_less)
qed

lemma realloc_grow:
  assumes "length buf \<le> n"
  shows "\<exists>rest. realloc buf n (Some junk) = Some (buf @ rest) \<and> length rest = n - length buf"
proof -
  let ?f = "\<lambda>k. if k < length buf then buf ! k else junk k"
  from assms obtain d where n: "n = length buf + d"
    by (auto simp: le_iff_add)
  have "map ?f [0..<n] = map ?f [0..<length buf] @ map ?f [length buf..<n]"
    unfolding n by (simp only: upt_add_eq_append [OF le0] map_append)
  moreover have "map ?f [0..<length buf] = buf"
    by (rule nth_equalityI) simp_all
  ultimately have "realloc buf n (Some junk) = Some (buf @ map ?f [length buf..<n])"
    by (simp add: realloc_def)
  then show ?thesis
    by simp
qed

lemma memcpy_double:
  "length rest = length buf \<Longrightarrow> memcpy (buf @ rest) (length buf) (length buf) = Inr (buf @ buf)"
  by (simp add: memcpy_def)

lemma resize_fresh:
  assumes "z qu = - 1" and "a qu = []"
  shows "\<exists>buf. plqu_add_resize qu (Some junk) = Inr (Some (qu\<lparr>a := buf, z := mask 3\<rparr>)) \<and>
               length buf = 2 ^ 3"
proof -
  have m: "mask 3 = (7 :: 64 word)"
    by (simp add: mask_eq_exp_minus_1)
  from realloc_grow [of "[]" 8 junk] obtain rest
    where "realloc [] 8 (Some junk) = Some rest" and "length rest = 8"
    by auto
  with assms have "plqu_add_resize qu (Some junk) = Inr (Some (qu\<lparr>a := rest, z := 8 - 1\<rparr>))"
    by (simp add: plqu_add_resize_def PLQU_INIZ_def memcpy_def)
  with \<open>length rest = 8\<close> show ?thesis
    by (intro exI [of _ rest]) (simp add: m)
qed

lemma resize_grown:
  assumes "z qu = mask k" and "length (a qu) = 2 ^ k" and "k < 63"
  shows "plqu_add_resize qu (Some junk) = Inr (Some (qu\<lparr>a := a qu @ a qu, z := mask (Suc k)\<rparr>))"
proof -
  from assms(3) have k: "k < 64" and sk: "Suc k < 64"
    by simp_all
  have z1: "z qu + 1 = 2 ^ k"
    by (simp add: assms(1) inc_mask_eq_exp)
  have nuz: "(z qu + 1) * 2 = 2 ^ Suc k"
    by (simp add: z1)
  have nz: "(2 :: 64 word) ^ Suc k \<noteq> 0"
    using sk by (simp only: exp_eq_zero_iff) simp
  have u1: "unat (z qu + 1) = length (a qu)"
    using unat_exp64 [OF k] by (simp add: z1 assms(2))
  have u2: "unat ((z qu + 1) * 2) = 2 * length (a qu)"
    using unat_exp64 [OF sk] by (simp only: nuz assms(2)) simp
  from realloc_grow [of "a qu" "2 * length (a qu)" junk] obtain rest
    where r: "realloc (a qu) (2 * length (a qu)) (Some junk) = Some (a qu @ rest)"
      and l: "length rest = length (a qu)"
    by auto
  have m: "(2 :: 64 word) ^ Suc k - 1 = mask (Suc k)"
    by (simp only: mask_eq_exp_minus_1)
  have "plqu_add_resize qu (Some junk) =
      (case realloc (a qu) (unat ((z qu + 1) * 2)) (Some junk) of
         None \<Rightarrow> Inr None
       | Some tmp \<Rightarrow>
          (case memcpy tmp (unat (z qu + 1)) (unat (z qu + 1)) of
             Inl e \<Rightarrow> Inl e
           | Inr buf \<Rightarrow> Inr (Some (qu\<lparr>a := buf, z := (z qu + 1) * 2 - 1\<rparr>))))"
    using nz by (simp only: plqu_add_resize_def Let_def nuz if_True not_False_eq_True simp_thms)
  also have "\<dots> = Inr (Some (qu\<lparr>a := a qu @ a qu, z := (z qu + 1) * 2 - 1\<rparr>))"
    by (simp only: u1 u2 r option.case memcpy_double [OF l] sum.case)
  finally show ?thesis
    by (simp only: nuz m)
qed

lemma resize_overflow:
  assumes "z qu = mask 63" and "length (a qu) = 2 ^ 63"
  shows "plqu_add_resize qu (Some junk) = Inl OutOfBounds"
proof -
  have z1: "z qu + 1 = 2 ^ 63"
    by (simp add: assms(1) inc_mask_eq_exp)
  have nuz: "(z qu + 1) * 2 = 0"
    by (simp add: z1)
  have u1: "unat (z qu + 1) = 2 ^ 63"
    unfolding z1 by (rule unat_exp64) simp
  have m: "memcpy tmp (2 ^ 63) (2 ^ 63) = Inl OutOfBounds" if "length tmp = 8" for tmp :: "'a list"
    using that by (simp add: memcpy_def)
  obtain tmp where r: "realloc (a qu) 8 (Some junk) = Some tmp" and l: "length tmp = 8"
    by (simp add: realloc_def)
  have u8: "unat PLQU_INIZ = 8"
    by (simp add: PLQU_INIZ_def)
  have "plqu_add_resize qu (Some junk) =
      (case realloc (a qu) (unat PLQU_INIZ) (Some junk) of
         None \<Rightarrow> Inr None
       | Some tmp \<Rightarrow>
          (case memcpy tmp (unat (z qu + 1)) (unat (z qu + 1)) of
             Inl e \<Rightarrow> Inl e
           | Inr buf \<Rightarrow> Inr (Some (qu\<lparr>a := buf, z := PLQU_INIZ - 1\<rparr>))))"
    by (simp only: plqu_add_resize_def Let_def nuz simp_thms if_False)
  also have "\<dots> = Inl OutOfBounds"
    by (simp only: u8 u1 r option.case m [OF l] sum.case)
  finally show ?thesis .
qed

lemma nth_doubled: "j < 2 * length xs \<Longrightarrow> (xs @ xs) ! j = xs ! (j mod length xs)"
  by (cases "j < length xs") (simp_all add: nth_append le_mod_geq)

lemma mod_exp_Suc: "(u mod 2 ^ Suc k) mod 2 ^ k = (u :: nat) mod 2 ^ k"
  by (rule mod_mod_cancel) simp

lemma queue_ok_cases:
  assumes "queue_ok qu"
  obtains (fresh) "z qu = - 1" "a qu = []" "tail qu = 0"
  | (grown) k where "3 \<le> k" "k < 64" "z qu = mask k" "length (a qu) = 2 ^ k"
  using assms by (auto simp: queue_ok_def)

lemma resize_queue_ok:
  assumes "queue_ok qu" and "plqu_add_resize qu mem = Inr (Some qu')"
  shows "queue_ok qu' \<and> a qu' \<noteq> [] \<and> head qu' = head qu \<and> tail qu' = tail qu"
proof -
  from assms(2) obtain junk where mem: "mem = Some junk"
    by (cases mem) (simp_all add: plqu_add_resize_def realloc_def)
  from assms(1) show ?thesis
  proof (cases rule: queue_ok_cases)
    case fresh
    from resize_fresh [OF fresh(1,2), of junk] assms(2) mem
    obtain buf where "qu' = qu\<lparr>a := buf, z := mask 3\<rparr>" and "length buf = 2 ^ 3"
      by auto
    then show ?thesis
      by (auto intro!: queue_ok_grown [of 3])
  next
    case (grown k)
    show ?thesis
    proof (cases "k < 63")
      case True
      from resize_grown [OF grown(3,4) True, of junk] assms(2) mem
      have "qu' = qu\<lparr>a := a qu @ a qu, z := mask (Suc k)\<rparr>"
        by simp
      moreover from grown(4) have "a qu \<noteq> []"
        by auto
      ultimately show ?thesis
        using grown True by (auto intro!: queue_ok_grown [of "Suc k"])
    next
      case False
      with grown have "k = 63" by simp
      with resize_overflow [of qu junk] grown assms(2) mem show ?thesis
        by simp
    qed
  qed
qed

text \<open>
  C2. When the resize of \<open>plqu_add\<close> has run on a well-formed queue, the queue is well-formed
  again, \<open>head\<close> and \<open>tail\<close> are what they were, and for every id \<open>n\<close> with
  \<open>head < n \<le> tail\<close> the cell \<open>(n - 1) AND z\<close> of the new buffer, under the new \<open>z\<close>, holds the
  value that \<open>plqu_get\<close> returned for \<open>n\<close> before; this does not depend on where the
  window lies in the old buffer.
\<close>

theorem plqu_add_resize_preserves:
  assumes "queue_ok qu" and "plqu_add_resize qu mem = Inr (Some qu')"
    and "head qu < n" and "n \<le> tail qu"
  shows "queue_ok qu' \<and> head qu' = head qu \<and> tail qu' = tail qu \<and>
         (\<exists>x. plqu_get nil qu n = Inr x \<and> plqu_get nil qu' n = Inr x \<and>
              load (a qu') ((n - 1) AND z qu') = Inr x)"
proof -
  from assms(2) obtain junk where mem: "mem = Some junk"
    by (cases mem) (simp_all add: plqu_add_resize_def realloc_def)
  note ok' = resize_queue_ok [OF assms(1,2)]
  from assms(1) show ?thesis
  proof (cases rule: queue_ok_cases)
    case fresh
    with assms(3,4) show ?thesis
      by (simp add: word_less_nat_alt word_le_nat_alt)
  next
    case (grown k)
    show ?thesis
    proof (cases "k < 63")
      case False
      with grown have "k = 63" by simp
      with resize_overflow [of qu junk] grown assms(2) mem show ?thesis
        by simp
    next
      case True
      from resize_grown [OF grown(3,4) True, of junk] assms(2) mem
      have qu': "qu' = qu\<lparr>a := a qu @ a qu, z := mask (Suc k)\<rparr>"
        by simp
      let ?u = "unat (n - 1)"
      have old: "load (a qu) ((n - 1) AND z qu) = Inr (a qu ! (?u mod 2 ^ k))"
        by (simp add: load_def grown unat_and_mask)
      have len': "length (a qu @ a qu) = 2 ^ Suc k"
        by (simp add: grown(4))
      have lt: "?u mod 2 ^ Suc k < 2 ^ Suc k"
        by (rule mod_less_divisor) simp
      then have "?u mod 2 ^ Suc k < 2 * length (a qu)"
        by (simp add: grown(4))
      then have "(a qu @ a qu) ! (?u mod 2 ^ Suc k) = a qu ! ((?u mod 2 ^ Suc k) mod 2 ^ k)"
        by (simp only: nth_doubled grown(4))
      then have nth: "(a qu @ a qu) ! (?u mod 2 ^ Suc k) = a qu ! (?u mod 2 ^ k)"
        by (simp only: mod_exp_Suc)
      have "load (a qu @ a qu) ((n - 1) AND mask (Suc k)) =
          Inr ((a qu @ a qu) ! (?u mod 2 ^ Suc k))"
        unfolding load_def unat_and_mask len' using lt by (simp only: if_True)
      then have "load (a qu @ a qu) ((n - 1) AND mask (Suc k)) = Inr (a qu ! (?u mod 2 ^ k))"
        by (simp only: nth)
      then have new: "load (a qu') ((n - 1) AND z qu') = Inr (a qu ! (?u mod 2 ^ k))"
        by (simp add: qu' del: power_Suc)
      from assms(3,4) have "plqu_get nil qu n = load (a qu) ((n - 1) AND z qu)"
        by (simp add: plqu_get_def)
      moreover from assms(3,4) ok' have "plqu_get nil qu' n = load (a qu') ((n - 1) AND z qu')"
        by (simp add: plqu_get_def)
      ultimately show ?thesis
        using old new ok' by simp
    qed
  qed
qed

theorem plqu_add_resize_preserves_witness:
  "queue_ok \<lparr>z = 7, a = [19, 20, 21, 14, 15, 16, 17, 18 :: nat], head = 3, tail = 11\<rparr> \<and>
   plqu_add_resize \<lparr>z = 7, a = [19, 20, 21, 14, 15, 16, 17, 18 :: nat], head = 3, tail = 11\<rparr>
       (Some (\<lambda>k. 0)) =
     Inr (Some \<lparr>z = 15, a = [19, 20, 21, 14, 15, 16, 17, 18, 19, 20, 21, 14, 15, 16, 17, 18],
                head = 3, tail = 11\<rparr>) \<and>
   head \<lparr>z = 7, a = [19, 20, 21, 14, 15, 16, 17, 18 :: nat], head = 3, tail = 11\<rparr> < 10 \<and>
   10 \<le> tail \<lparr>z = 7, a = [19, 20, 21, 14, 15, 16, 17, 18 :: nat], head = 3, tail = 11\<rparr> \<and>
   plqu_get 0 \<lparr>z = 7, a = [19, 20, 21, 14, 15, 16, 17, 18 :: nat], head = 3, tail = 11\<rparr> 10 =
     Inr 20 \<and>
   plqu_get 0 \<lparr>z = 15, a = [19, 20, 21, 14, 15, 16, 17, 18, 19, 20, 21, 14, 15, 16, 17, 18 :: nat],
                head = 3, tail = 11\<rparr> 10 = Inr 20"
proof -
  let ?Q = "\<lparr>z = 7, a = [19, 20, 21, 14, 15, 16, 17, 18 :: nat], head = 3, tail = 11\<rparr>"
  let ?R = "\<lparr>z = 15, a = [19, 20, 21, 14, 15, 16, 17, 18, 19, 20, 21, 14, 15, 16, 17, 18 :: nat],
              head = 3, tail = 11\<rparr>"
  have m3: "(7 :: 64 word) = mask 3" and m4: "mask 4 = (15 :: 64 word)"
    by (simp_all add: mask_eq_exp_minus_1)
  have ok: "queue_ok ?Q"
    by (rule queue_ok_grown [of 3]) (simp_all add: m3)
  have "plqu_add_resize ?Q (Some (\<lambda>k. 0)) =
      Inr (Some (?Q\<lparr>a := a ?Q @ a ?Q, z := mask (Suc 3)\<rparr>))"
    by (rule resize_grown) (simp_all add: m3)
  then have grow: "plqu_add_resize ?Q (Some (\<lambda>k. 0)) = Inr (Some ?R)"
    by (simp add: m4)
  have lo: "head ?Q < 10" and hi: "10 \<le> tail ?Q"
    by (simp_all add: word_less_nat_alt word_le_nat_alt)
  from plqu_add_resize_preserves [OF ok grow lo hi, of 0]
  have "\<exists>x. plqu_get 0 ?Q 10 = Inr x \<and> plqu_get 0 ?R 10 = Inr x"
    by auto
  moreover have "plqu_get 0 ?Q 10 = Inr 20"
    using lo hi by (simp add: plqu_get_def load_def m3 unat_and_mask)
  ultimately show ?thesis
    using ok grow lo hi by auto
qed

subsection \<open>Appending\<close>

lemma unat_of_nat64: "n \<le> 2 ^ 63 \<Longrightarrow> unat (word_of_nat n :: 64 word) = n"
proof -
  assume "n \<le> 2 ^ 63"
  moreover have "(2 :: nat) ^ 63 < 2 ^ LENGTH(64)"
    by (simp only: power_strict_increasing_iff len_bit0 len_num1)
  ultimately have "n < 2 ^ LENGTH(64)"
    by (rule le_less_trans)
  then show ?thesis
    by (simp only: unat_of_nat mod_less)
qed

lemma add_store_ok:
  assumes "queue_ok qu" and "a qu \<noteq> []"
  shows "plqu_add_store qu x =
    Inr (tail qu + 1, qu\<lparr>a := (a qu)[unat (tail qu) mod length (a qu) := x], tail := tail qu + 1\<rparr>)"
proof -
  from assms obtain k where "z qu = mask k" and "length (a qu) = 2 ^ k"
    by (auto simp: queue_ok_def)
  then show ?thesis
    by (simp add: plqu_add_store_def store_def unat_and_mask)
qed

lemma queue_ok_update:
  assumes "queue_ok qu" and "a qu \<noteq> []" and "length buf = length (a qu)"
  shows "queue_ok (qu\<lparr>a := buf, tail := t\<rparr>)"
proof -
  from assms(1,2) obtain k where "3 \<le> k" "k < 64" "z qu = mask k" "length (a qu) = 2 ^ k"
    by (auto simp: queue_ok_def)
  with assms(3) show ?thesis
    by (intro queue_ok_grown [of k]) simp_all
qed

lemma queue_ok_head [simp]: "queue_ok (qu\<lparr>head := h\<rparr>) = queue_ok qu"
  by (simp add: queue_ok_def)

lemma not_full_nonempty:
  assumes "queue_ok qu" and "\<not> z qu + 1 \<le> tail qu - head qu"
  shows "a qu \<noteq> []"
  using assms by (auto simp: queue_ok_def)

lemma plqu_add_queue_ok:
  assumes "queue_ok qu" and "plqu_add qu x mem = Inr (n, qu')"
  shows "queue_ok qu'"
proof (cases "z qu + 1 \<le> tail qu - head qu")
  case False
  with assms(1) have ne: "a qu \<noteq> []"
    by (rule not_full_nonempty)
  from False assms(2) add_store_ok [OF assms(1) ne, of x]
  have "qu' = qu\<lparr>a := (a qu)[unat (tail qu) mod length (a qu) := x], tail := tail qu + 1\<rparr>"
    by (auto simp: plqu_add_def)
  with queue_ok_update [OF assms(1) ne, where buf = "(a qu)[unat (tail qu) mod length (a qu) := x]"
      and t = "tail qu + 1"]
  show ?thesis
    by simp
next
  case True
  show ?thesis
  proof (cases "plqu_add_resize qu mem")
    case (Inl e)
    with True assms(2) show ?thesis
      by (simp add: plqu_add_def)
  next
    case (Inr r)
    show ?thesis
    proof (cases r)
      case None
      with Inr True assms show ?thesis
        by (simp add: plqu_add_def)
    next
      case (Some q1)
      with Inr have r1: "plqu_add_resize qu mem = Inr (Some q1)"
        by simp
      from resize_queue_ok [OF assms(1) r1] have ok1: "queue_ok q1" and ne1: "a q1 \<noteq> []"
        by simp_all
      from True r1 assms(2) add_store_ok [OF ok1 ne1, of x]
      have "qu' = q1\<lparr>a := (a q1)[unat (tail q1) mod length (a q1) := x], tail := tail q1 + 1\<rparr>"
        by (auto simp: plqu_add_def)
      with queue_ok_update [OF ok1 ne1, where buf = "(a q1)[unat (tail q1) mod length (a q1) := x]"
          and t = "tail q1 + 1"]
      show ?thesis
        by simp
    qed
  qed
qed

lemma plqu_put_queue_ok:
  assumes "queue_ok qu" and "plqu_put qu n x = Inr (r, qu')"
  shows "queue_ok qu'"
proof (cases "head qu < n \<and> n \<le> tail qu")
  case False
  with assms show ?thesis
    by (auto simp: plqu_put_def)
next
  case True
  then have "head qu < tail qu"
    by auto
  with assms(1) have ne: "a qu \<noteq> []"
    by (rule queue_ok_nonempty)
  from True assms(2) obtain buf where "store (a qu) ((n - 1) AND z qu) x = Inr buf"
    and qu': "qu' = qu\<lparr>a := buf\<rparr>"
    by (auto simp: plqu_put_def split: sum.splits)
  then have "length buf = length (a qu)"
    by (auto simp: store_def split: if_splits)
  with queue_ok_update [OF assms(1) ne, where buf = buf and t = "tail qu"] qu' show ?thesis
    by simp
qed

lemma plqu_pop_queue_ok:
  assumes "queue_ok qu" and "plqu_pop nil qu = Inr (x, qu')"
  shows "queue_ok qu'"
proof -
  from assms(2) have "qu' = qu \<or> qu' = qu\<lparr>head := head qu + 1\<rparr>"
    by (auto simp: plqu_pop_def split: if_splits sum.splits)
  with assms(1) show ?thesis
    by (auto simp: queue_ok_def)
qed

lemma mod_neq_close:
  fixes b c m :: nat
  assumes "b < c" and "c - b < m"
  shows "c mod m \<noteq> b mod m"
proof
  assume "c mod m = b mod m"
  then have "m dvd c - b"
    using assms(1) by (simp add: mod_eq_dvd_iff_nat)
  with assms show False
    by (auto dest: dvd_imp_le)
qed

lemma load_doubled:
  assumes "length buf = 2 ^ k"
  shows "load (buf @ buf) (w AND mask (Suc k)) = load buf (w AND mask k)"
proof -
  let ?u = "unat w"
  have len': "length (buf @ buf) = 2 ^ Suc k"
    by (simp add: assms)
  have lt: "?u mod 2 ^ Suc k < 2 ^ Suc k"
    by (rule mod_less_divisor) simp
  then have "?u mod 2 ^ Suc k < 2 * length buf"
    by (simp add: assms)
  then have "(buf @ buf) ! (?u mod 2 ^ Suc k) = buf ! ((?u mod 2 ^ Suc k) mod 2 ^ k)"
    by (simp only: nth_doubled assms)
  then have nth: "(buf @ buf) ! (?u mod 2 ^ Suc k) = buf ! (?u mod 2 ^ k)"
    by (simp only: mod_exp_Suc)
  have "load (buf @ buf) (w AND mask (Suc k)) = Inr ((buf @ buf) ! (?u mod 2 ^ Suc k))"
    unfolding load_def unat_and_mask len' using lt by (simp only: if_True)
  moreover have "load buf (w AND mask k) = Inr (buf ! (?u mod 2 ^ k))"
    by (simp add: load_def unat_and_mask assms)
  ultimately show ?thesis
    by (simp only: nth)
qed

text \<open>
  The whole of \<open>plqu_add\<close> when it resizes a queue whose window fills the buffer exactly, as
  it does when \<open>head\<close> only ever moved forward: the new value goes to a cell that no id of the
  old window uses, so every id of the old window still reads its value afterwards, and the
  new id reads the new value.
\<close>

lemma plqu_add_grow_keeps:
  assumes ok: "queue_ok qu" and full: "tail qu - head qu = z qu + 1"
    and nowrap: "tail qu + 1 \<noteq> 0"
    and add: "plqu_add qu x (Some junk) = Inr (m, qu'')"
    and lo: "head qu < n" and hi: "n \<le> tail qu"
  shows "m = tail qu + 1 \<and> plqu_get nil qu'' n = plqu_get nil qu n \<and> plqu_get nil qu'' m = Inr x"
proof -
  from lo hi have ht: "head qu < tail qu"
    by simp
  with ok have ne: "a qu \<noteq> []"
    by (rule queue_ok_nonempty)
  with ok obtain k where k: "3 \<le> k" "k < 64" "z qu = mask k" "length (a qu) = 2 ^ k"
    by (auto simp: queue_ok_def)
  have z1: "z qu + 1 = 2 ^ k"
    by (simp add: k(3) inc_mask_eq_exp)
  obtain q1 where r: "plqu_add_resize qu (Some junk) = Inr (Some q1)"
    and st: "plqu_add_store q1 x = Inr (m, qu'')"
    using add full by (auto simp: plqu_add_def realloc_def plqu_add_resize_def Let_def
        split: sum.splits option.splits)
  have k63: "k < 63"
  proof (rule ccontr)
    assume "\<not> k < 63"
    with k(2) have "k = 63" by simp
    with resize_overflow [of qu junk] k r show False
      by simp
  qed
  from resize_grown [OF k(3,4) k63, of junk] r
  have q1: "q1 = qu\<lparr>a := a qu @ a qu, z := mask (Suc k)\<rparr>"
    by simp
  from resize_queue_ok [OF ok r] have ok1: "queue_ok q1" and ne1: "a q1 \<noteq> []"
    by simp_all
  have len1: "length (a q1) = 2 ^ Suc k"
    by (simp add: q1 k(4))
  let ?T = "unat (tail qu)" and ?c = "unat (n - 1)"
  from resize_queue_ok [OF ok r] have t1: "tail q1 = tail qu"
    by simp
  from add_store_ok [OF ok1 ne1, of x] st
  have "m = tail q1 + 1"
    and "qu'' = q1\<lparr>a := (a q1)[unat (tail q1) mod length (a q1) := x], tail := tail q1 + 1\<rparr>"
    by simp_all
  then have m: "m = tail qu + 1"
    and qu'': "qu'' = q1\<lparr>a := (a q1)[?T mod 2 ^ Suc k := x], tail := tail qu + 1\<rparr>"
    by (simp_all only: t1 len1)
  from lo have n0: "n \<noteq> 0"
    by auto
  then have c: "?c = unat n - 1" and npos: "0 < unat n"
    by (simp_all add: unat_minus_one unat_gt_0)
  from lo hi have "unat (head qu) < unat n" and "unat n \<le> ?T"
    by (simp_all add: word_less_nat_alt word_le_nat_alt)
  with c npos have lt: "?c < ?T" and ge: "unat (head qu) \<le> ?c"
    by simp_all
  from ht have "unat (tail qu - head qu) = ?T - unat (head qu)"
    by (simp add: unat_sub word_le_nat_alt word_less_nat_alt)
  with full have "?T - unat (head qu) = 2 ^ k"
    by (simp add: z1 unat_exp64 [OF k(2)])
  with ge have "?T - ?c \<le> 2 ^ k"
    by simp
  moreover have "(2 :: nat) ^ k < 2 ^ Suc k"
    by simp
  ultimately have "?T - ?c < 2 ^ Suc k"
    by (rule le_less_trans)
  with lt have neq: "?T mod 2 ^ Suc k \<noteq> ?c mod 2 ^ Suc k"
    by (rule mod_neq_close)
  from nowrap have "1 + tail qu \<noteq> 0"
    by (simp add: add.commute)
  then have "unat (1 + tail qu) = Suc ?T"
    by (rule unatSuc)
  then have up: "tail qu < tail qu + 1"
    by (simp add: word_less_nat_alt add.commute)
  with lo hi have rng: "head qu < n \<and> n \<le> tail qu + 1"
    by simp
  have cell: "load (a qu'') ((n - 1) AND z qu'') = load (a q1) ((n - 1) AND z q1)"
    using neq by (simp add: qu'' load_def q1 unat_and_mask del: power_Suc)
  from lo hi have "plqu_get nil qu n = load (a qu) ((n - 1) AND mask k)"
    by (simp add: plqu_get_def k(3))
  with load_doubled [OF k(4), of "n - 1"]
  have keep: "load (a q1) ((n - 1) AND z q1) = plqu_get nil qu n"
    by (simp add: q1)
  have "plqu_get nil qu'' n = load (a qu'') ((n - 1) AND z qu'')"
    using rng by (simp add: plqu_get_def qu'' q1)
  with cell keep have g1: "plqu_get nil qu'' n = plqu_get nil qu n"
    by simp
  have idx: "?T mod 2 ^ Suc k < length (a q1)"
    unfolding len1 by (rule mod_less_divisor) simp
  from ht up have "head qu < tail qu + 1"
    by simp
  then have "plqu_get nil qu'' (tail qu + 1) = load (a qu'') (tail qu AND z qu'')"
    by (simp add: plqu_get_def qu'' q1)
  also have "\<dots> = Inr x"
    using idx by (simp add: qu'' load_def q1 unat_and_mask k(4) del: power_Suc)
  finally show ?thesis
    using m g1 by simp
qed

subsection \<open>The invariant of the pool\<close>

lemma mask_odd: "0 < k \<Longrightarrow> (mask k :: 64 word) AND 1 = 1"
  by (simp add: and_one_eq mod2_eq_if even_mask_iff)

lemma exp_even: "0 < k \<Longrightarrow> (2 ^ k :: 64 word) AND 1 = 0"
  by (simp add: and_one_eq mod2_eq_if)

lemma queue_ok_in_use: "queue_ok qu \<Longrightarrow> in_use qu"
  by (auto simp: queue_ok_def in_use_def mask_odd)

lemma free_ok_not_in_use: "free_ok qu \<Longrightarrow> \<not> in_use qu"
  by (auto simp: free_ok_def in_use_def exp_even)

lemma free_ok_acquire:
  assumes "free_ok qu"
  shows "queue_ok (qu\<lparr>z := z qu - 1\<rparr>)"
  using assms by (auto simp: free_ok_def queue_ok_def mask_eq_exp_minus_1)

lemma queue_ok_release:
  assumes "queue_ok qu"
  shows "free_ok (free_plqu qu)"
  using assms by (auto simp: free_ok_def queue_ok_def free_plqu_def inc_mask_eq_exp)

lemma pool_invD:
  assumes "pool_inv pool" and "h < length pool"
  shows "in_use (pool ! h) \<Longrightarrow> queue_ok (pool ! h)" and "\<not> in_use (pool ! h) \<Longrightarrow> free_ok (pool ! h)"
proof -
  from assms have "if in_use (pool ! h) then queue_ok (pool ! h) else free_ok (pool ! h)"
    unfolding pool_inv_def using nth_mem [of h pool] by blast
  then show "in_use (pool ! h) \<Longrightarrow> queue_ok (pool ! h)"
    and "\<not> in_use (pool ! h) \<Longrightarrow> free_ok (pool ! h)"
    by simp_all
qed

lemma pool_inv_update_ok:
  assumes "pool_inv pool" and "queue_ok qu"
  shows "pool_inv (pool[h := qu])"
proof -
  have "set (pool[h := qu]) \<subseteq> insert qu (set pool)"
    by (rule set_update_subset_insert)
  with assms show ?thesis
    by (auto simp: pool_inv_def queue_ok_in_use)
qed

lemma pool_inv_update_free:
  assumes "pool_inv pool" and "free_ok qu"
  shows "pool_inv (pool[h := qu])"
proof -
  have "set (pool[h := qu]) \<subseteq> insert qu (set pool)"
    by (rule set_update_subset_insert)
  with assms show ?thesis
    by (auto simp: pool_inv_def free_ok_not_in_use)
qed

lemma next_free_from_spec:
  "n \<le> length pool \<Longrightarrow>
   n \<le> next_free_from pool n \<and> next_free_from pool n \<le> length pool \<and>
   (\<forall>k. n \<le> k \<and> k < next_free_from pool n \<longrightarrow> in_use (pool ! k)) \<and>
   (next_free_from pool n < length pool \<longrightarrow> \<not> in_use (pool ! next_free_from pool n))"
proof (induction pool n rule: next_free_from.induct)
  case (1 pool n)
  show ?case
  proof (cases "n < length pool \<and> z (pool ! n) AND 1 \<noteq> 0")
    case False
    with "1.prems" show ?thesis
      by (subst (1 2 3 4 5) next_free_from.simps) (auto simp: in_use_def)
  next
    case True
    then have eq: "next_free_from pool n = next_free_from pool (Suc n)"
      by (subst next_free_from.simps) simp
    from True "1.IH" have IH: "Suc n \<le> next_free_from pool (Suc n) \<and>
        next_free_from pool (Suc n) \<le> length pool \<and>
        (\<forall>k. Suc n \<le> k \<and> k < next_free_from pool (Suc n) \<longrightarrow> in_use (pool ! k)) \<and>
        (next_free_from pool (Suc n) < length pool \<longrightarrow>
           \<not> in_use (pool ! next_free_from pool (Suc n)))"
      by simp
    have "in_use (pool ! k)" if "n \<le> k" and "k < next_free_from pool (Suc n)" for k
    proof (cases "k = n")
      case True
      with \<open>n < length pool \<and> z (pool ! n) AND 1 \<noteq> 0\<close> show ?thesis
        by (simp add: in_use_def)
    next
      case False
      with that IH show ?thesis
        by simp
    qed
    with IH show ?thesis
      unfolding eq by auto
  qed
qed

lemma make_plqu_result:
  assumes "make_plqu pool = Inr (h, pool')"
  shows "h = next_free pool" and "h < length pool" and "\<not> in_use (pool ! h)"
    and "pool' = pool[h := (pool ! h)\<lparr>z := z (pool ! h) - 1\<rparr>]"
proof -
  from assms show h: "h = next_free pool" and lt: "h < length pool"
    and "pool' = pool[h := (pool ! h)\<lparr>z := z (pool ! h) - 1\<rparr>]"
    by (auto simp: make_plqu_def Let_def split: if_splits)
  from next_free_from_spec [of 0 pool] h lt show "\<not> in_use (pool ! h)"
    by (simp add: next_free_def)
qed

lemma reachable_pool_inv: "reachable pool \<Longrightarrow> pool_inv pool"
proof (induction rule: reachable.induct)
  case init
  show ?case
    by (simp add: pool_inv_def static_pool_def in_use_def free_ok_def)
next
  case (make pool h pool')
  note r = make_plqu_result [OF make.hyps(2)]
  from pool_invD(2) [OF make.IH r(2) r(3)] have "queue_ok ((pool ! h)\<lparr>z := z (pool ! h) - 1\<rparr>)"
    by (rule free_ok_acquire)
  with make.IH show ?case
    unfolding r(4) by (rule pool_inv_update_ok)
next
  case (free pool h)
  from pool_invD(1) [OF free.IH free.hyps(2,3)] have "free_ok (free_plqu (pool ! h))"
    by (rule queue_ok_release)
  with free.IH show ?case
    by (rule pool_inv_update_free)
next
  case (add pool h x mem n qu')
  from pool_invD(1) [OF add.IH add.hyps(2,3)] add.hyps(4) have "queue_ok qu'"
    by (rule plqu_add_queue_ok)
  with add.IH show ?case
    by (rule pool_inv_update_ok)
next
  case (put pool h n x r qu')
  from pool_invD(1) [OF put.IH put.hyps(2,3)] put.hyps(4) have "queue_ok qu'"
    by (rule plqu_put_queue_ok)
  with put.IH show ?case
    by (rule pool_inv_update_ok)
next
  case (pop pool h nil x qu')
  from pool_invD(1) [OF pop.IH pop.hyps(2,3)] pop.hyps(4) have "queue_ok qu'"
    by (rule plqu_pop_queue_ok)
  with pop.IH show ?case
    by (rule pool_inv_update_ok)
next
  case (iter_put pool it h x r pool')
  note ok = pool_invD(1) [OF iter_put.IH iter_put.hyps(3,4)]
  show ?case
  proof (cases "i it = 0 \<or> tail (pool ! h) < i it")
    case True
    with iter_put.hyps iter_put.IH show ?thesis
      by (auto simp: plqu_iter_put_def split: if_splits)
  next
    case False
    with iter_put.hyps obtain qu' where "plqu_put (pool ! h) (i it) x = Inr (r, qu')"
      and "pool' = pool[h := qu']"
      by (auto simp: plqu_iter_put_def split: sum.splits)
    with ok iter_put.IH show ?thesis
      by (auto intro: pool_inv_update_ok plqu_put_queue_ok)
  qed
next
  case (iter_set_top pool it h r pool')
  note ok = pool_invD(1) [OF iter_set_top.IH iter_set_top.hyps(3,4)]
  from iter_set_top.hyps have "pool' = pool \<or> pool' = pool[h := (pool ! h)\<lparr>head := i it - 1\<rparr>]"
    by (auto simp: plqu_iter_set_top_def split: if_splits)
  with ok iter_set_top.IH show ?case
    by (auto intro: pool_inv_update_ok)
qed

text \<open>
  C8, as the code has it. In every reachable pool a slot that is in use either never grew, and
  then it has no buffer and \<open>z\<close> is \<open>0 - 1\<close>, all ones, or it has a buffer of \<open>2 ^ k\<close> elements
  with \<open>3 \<le> k\<close> and \<open>z\<close> is \<open>2 ^ k - 1\<close>. The reachable pools are closed under every call
  that writes to the pool, so every call keeps this.
\<close>

theorem in_use_capacity:
  assumes "reachable pool" and "h < length pool" and "in_use (pool ! h)"
  shows "(z (pool ! h) = - 1 \<and> a (pool ! h) = []) \<or>
         (\<exists>k. 3 \<le> k \<and> k < 64 \<and> length (a (pool ! h)) = 2 ^ k \<and> z (pool ! h) = 2 ^ k - 1)"
proof -
  from assms(1) have "pool_inv pool"
    by (rule reachable_pool_inv)
  from pool_invD(1) [OF this assms(2,3)] show ?thesis
    by (auto simp: queue_ok_def mask_eq_exp_minus_1)
qed

lemma upt_8: "[0..<8] = [0, 1, 2, 3, 4, 5, 6, 7]"
  by code_simp

theorem in_use_capacity_witness:
  "reachable (static_pool [0 := \<lparr>z = 7, a = [5, 0, 0, 0, 0, 0, 0, 0 :: nat], head = 0, tail = 1\<rparr>]) \<and>
   0 < length (static_pool [0 := \<lparr>z = 7, a = [5, 0, 0, 0, 0, 0, 0, 0 :: nat], head = 0, tail = 1\<rparr>]) \<and>
   in_use (static_pool [0 := \<lparr>z = 7, a = [5, 0, 0, 0, 0, 0, 0, 0 :: nat], head = 0, tail = 1\<rparr>] ! 0) \<and>
   length (a (static_pool [0 := \<lparr>z = 7, a = [5, 0, 0, 0, 0, 0, 0, 0 :: nat], head = 0, tail = 1\<rparr>] ! 0))
     = 2 ^ 3 \<and>
   z (static_pool [0 := \<lparr>z = 7, a = [5, 0, 0, 0, 0, 0, 0, 0 :: nat], head = 0, tail = 1\<rparr>] ! 0)
     = 2 ^ 3 - 1"
proof -
  let ?U = "\<lparr>z = - 1, a = [] :: nat list, head = 0, tail = 0\<rparr>"
  let ?Q = "\<lparr>z = 7, a = [5, 0, 0, 0, 0, 0, 0, 0 :: nat], head = 0, tail = 1\<rparr>"
  let ?P1 = "static_pool [0 := ?U]"
  let ?P2 = "static_pool [0 := ?Q]"
  have nf: "next_free (static_pool :: nat plqu_s list) = 0"
    unfolding next_free_def by (subst next_free_from.simps) (simp add: static_pool_def)
  have "make_plqu (static_pool :: nat plqu_s list) = Inr (0, ?P1)"
    by (simp add: make_plqu_def nf length_static_pool) (simp add: static_pool_def)
  with reachable.init have r1: "reachable ?P1"
    by (rule reachable.make)
  have P1: "?P1 ! 0 = ?U"
    by (rule static_pool_update_nth) simp
  have add: "plqu_add (?P1 ! 0) 5 (Some (\<lambda>k. 0)) = Inr (1, ?Q)"
    unfolding P1
    by (simp add: plqu_add_def plqu_add_resize_def PLQU_INIZ_def realloc_def memcpy_def
          plqu_add_store_def store_def upt_8)
  have "reachable (?P1[0 := ?Q])"
    by (rule reachable.add [OF r1 _ _ add]) (simp_all add: length_static_pool P1 in_use_def)
  then have r2: "reachable ?P2"
    by simp
  have P2: "?P2 ! 0 = ?Q"
    by (rule static_pool_update_nth) simp
  have len: "0 < length ?P2" and used: "in_use (?P2 ! 0)"
    by (simp_all add: length_static_pool P2 in_use_def)
  from in_use_capacity [OF r2 len used] r2 len used show ?thesis
    by (simp add: P2)
qed

text \<open>
  C8, as the claim has it, fails for a slot that was acquired and never grew: the first
  \<open>make_plqu\<close> on the static pool hands out slot 0 with \<open>z = 0 - 1\<close>, in use, and with a
  buffer of length 0, which is no power of two.
\<close>

theorem acquired_slot_without_buffer:
  "make_plqu (static_pool :: nat plqu_s list) =
     Inr (0, static_pool [0 := \<lparr>z = - 1, a = [], head = 0, tail = 0\<rparr>]) \<and>
   reachable (static_pool [0 := \<lparr>z = - 1, a = [] :: nat list, head = 0, tail = 0\<rparr>]) \<and>
   in_use (static_pool [0 := \<lparr>z = - 1, a = [] :: nat list, head = 0, tail = 0\<rparr>] ! 0) \<and>
   length (a (static_pool [0 := \<lparr>z = - 1, a = [] :: nat list, head = 0, tail = 0\<rparr>] ! 0)) = 0"
proof -
  let ?U = "\<lparr>z = - 1, a = [] :: nat list, head = 0, tail = 0\<rparr>"
  let ?P1 = "static_pool [0 := ?U]"
  have nf: "next_free (static_pool :: nat plqu_s list) = 0"
    unfolding next_free_def by (subst next_free_from.simps) (simp add: static_pool_def)
  have mk: "make_plqu (static_pool :: nat plqu_s list) = Inr (0, ?P1)"
    by (simp add: make_plqu_def nf length_static_pool) (simp add: static_pool_def)
  with reachable.init have r1: "reachable ?P1"
    by (rule reachable.make)
  have P1: "?P1 ! 0 = ?U"
    by (rule static_pool_update_nth) simp
  from mk r1 show ?thesis
    by (simp add: P1 in_use_def)
qed

subsection \<open>Release and acquire\<close>

lemma next_free_le:
  assumes "h < length pool" and "\<not> in_use (pool ! h)"
  shows "next_free pool \<le> h"
proof (rule ccontr)
  assume "\<not> next_free pool \<le> h"
  then have "h < next_free_from pool 0"
    by (simp add: next_free_def)
  with next_free_from_spec [of 0 pool] have "in_use (pool ! h)"
    by simp
  with assms(2) show False ..
qed

text \<open>
  C9. In a reachable pool, \<open>free_plqu\<close> on a handle that is in use followed by \<open>make_plqu\<close>
  returns a handle, and the queue behind it has \<open>head = tail = 0\<close>, so that \<open>plqu_get\<close>
  returns the sentinel for every id; \<open>make_plqu\<close> leaves the buffer of the slot it hands
  out as it was.
\<close>

theorem free_then_make_empty:
  assumes "reachable pool" and "h < length pool" and "in_use (pool ! h)"
  shows "\<exists>h' pool'.
           make_plqu (pool[h := free_plqu (pool ! h)]) = Inr (h', pool') \<and>
           h' < length pool' \<and> in_use (pool' ! h') \<and>
           head (pool' ! h') = 0 \<and> tail (pool' ! h') = 0 \<and>
           (\<forall>n. plqu_get nil (pool' ! h') n = Inr nil) \<and>
           a (pool' ! h') = a (pool[h := free_plqu (pool ! h)] ! h')"
proof -
  let ?P = "pool[h := free_plqu (pool ! h)]"
  let ?h' = "next_free ?P"
  let ?qu = "(?P ! ?h')\<lparr>z := z (?P ! ?h') - 1\<rparr>"
  from assms have "reachable ?P"
    by (rule reachable.free)
  then have inv: "pool_inv ?P"
    by (rule reachable_pool_inv)
  from assms(1) have "pool_inv pool"
    by (rule reachable_pool_inv)
  from pool_invD(1) [OF this assms(2,3)] have "free_ok (free_plqu (pool ! h))"
    by (rule queue_ok_release)
  with assms(2) have "\<not> in_use (?P ! h)"
    by (simp add: free_ok_not_in_use)
  with assms(2) have "?h' \<le> h"
    by (intro next_free_le) simp_all
  with assms(2) have lt: "?h' < length ?P"
    by simp
  with next_free_from_spec [of 0 ?P] have "\<not> in_use (?P ! ?h')"
    by (simp add: next_free_def)
  from pool_invD(2) [OF inv lt this] have fr: "free_ok (?P ! ?h')" .
  then have ok: "queue_ok ?qu"
    by (rule free_ok_acquire)
  from fr have ht: "head ?qu = 0" "tail ?qu = 0"
    by (simp_all add: free_ok_def)
  have mk: "make_plqu ?P = Inr (?h', ?P[?h' := ?qu])"
    using lt by (simp add: make_plqu_def Let_def)
  have nth: "?P[?h' := ?qu] ! ?h' = ?qu"
    using lt by simp
  have get: "plqu_get nil ?qu n = Inr nil" for n
    using ht by (auto simp: plqu_get_def word_less_nat_alt word_le_nat_alt)
  have "a ?qu = a (?P ! ?h')"
    by simp
  with mk lt ok ht get
  have "make_plqu ?P = Inr (?h', ?P[?h' := ?qu]) \<and>
        ?h' < length (?P[?h' := ?qu]) \<and> in_use (?P[?h' := ?qu] ! ?h') \<and>
        head (?P[?h' := ?qu] ! ?h') = 0 \<and> tail (?P[?h' := ?qu] ! ?h') = 0 \<and>
        (\<forall>n. plqu_get nil (?P[?h' := ?qu] ! ?h') n = Inr nil) \<and>
        a (?P[?h' := ?qu] ! ?h') = a (?P ! ?h')"
    by (simp only: nth queue_ok_in_use length_list_update simp_thms)
  then show ?thesis
    by blast
qed

lemma next_free_first:
  "0 < length pool \<Longrightarrow> \<not> in_use (pool ! 0) \<Longrightarrow> next_free pool = 0"
  using next_free_le [of 0 pool] by simp

lemma grown_pool_reachable:
  "reachable (static_pool [0 := \<lparr>z = 7, a = [5, 0, 0, 0, 0, 0, 0, 0 :: nat], head = 0, tail = 1\<rparr>])"
proof -
  let ?U = "\<lparr>z = - 1, a = [] :: nat list, head = 0, tail = 0\<rparr>"
  let ?Q = "\<lparr>z = 7, a = [5, 0, 0, 0, 0, 0, 0, 0 :: nat], head = 0, tail = 1\<rparr>"
  let ?P1 = "static_pool [0 := ?U]"
  have nf: "next_free (static_pool :: nat plqu_s list) = 0"
    by (rule next_free_first) (simp_all add: static_pool_def in_use_def)
  have "make_plqu (static_pool :: nat plqu_s list) = Inr (0, ?P1)"
    by (simp add: make_plqu_def nf length_static_pool) (simp add: static_pool_def)
  with reachable.init have r1: "reachable ?P1"
    by (rule reachable.make)
  have P1: "?P1 ! 0 = ?U"
    by (rule static_pool_update_nth) simp
  have add: "plqu_add (?P1 ! 0) 5 (Some (\<lambda>k. 0)) = Inr (1, ?Q)"
    unfolding P1
    by (simp add: plqu_add_def plqu_add_resize_def PLQU_INIZ_def realloc_def memcpy_def
          plqu_add_store_def store_def upt_8)
  have "reachable (?P1[0 := ?Q])"
    by (rule reachable.add [OF r1 _ _ add]) (simp_all add: length_static_pool P1 in_use_def)
  then show ?thesis
    by simp
qed

theorem free_then_make_empty_witness:
  "reachable (static_pool [0 := \<lparr>z = 7, a = [5, 0, 0, 0, 0, 0, 0, 0 :: nat], head = 0, tail = 1\<rparr>]) \<and>
   0 < length (static_pool [0 := \<lparr>z = 7, a = [5, 0, 0, 0, 0, 0, 0, 0 :: nat], head = 0, tail = 1\<rparr>]) \<and>
   in_use (static_pool [0 := \<lparr>z = 7, a = [5, 0, 0, 0, 0, 0, 0, 0 :: nat], head = 0, tail = 1\<rparr>] ! 0) \<and>
   make_plqu
     ((static_pool [0 := \<lparr>z = 7, a = [5, 0, 0, 0, 0, 0, 0, 0 :: nat], head = 0, tail = 1\<rparr>])
        [0 := free_plqu \<lparr>z = 7, a = [5, 0, 0, 0, 0, 0, 0, 0 :: nat], head = 0, tail = 1\<rparr>]) =
     Inr (0, static_pool [0 := \<lparr>z = 7, a = [5, 0, 0, 0, 0, 0, 0, 0 :: nat], head = 0, tail = 0\<rparr>]) \<and>
   plqu_get 0 \<lparr>z = 7, a = [5, 0, 0, 0, 0, 0, 0, 0 :: nat], head = 0, tail = 1\<rparr> 1 = Inr 5 \<and>
   plqu_get 0 \<lparr>z = 7, a = [5, 0, 0, 0, 0, 0, 0, 0 :: nat], head = 0, tail = 0\<rparr> 1 = Inr 0"
proof -
  let ?Q = "\<lparr>z = 7, a = [5, 0, 0, 0, 0, 0, 0, 0 :: nat], head = 0, tail = 1\<rparr>"
  let ?F = "\<lparr>z = 8, a = [5, 0, 0, 0, 0, 0, 0, 0 :: nat], head = 0, tail = 0\<rparr>"
  let ?R = "\<lparr>z = 7, a = [5, 0, 0, 0, 0, 0, 0, 0 :: nat], head = 0, tail = 0\<rparr>"
  let ?P2 = "static_pool [0 := ?Q]"
  note r2 = grown_pool_reachable
  have P2: "?P2 ! 0 = ?Q"
    by (rule static_pool_update_nth) simp
  have len: "0 < length ?P2" and used: "in_use (?P2 ! 0)"
    by (simp_all add: length_static_pool P2 in_use_def)
  have fr: "?P2[0 := free_plqu (?P2 ! 0)] = static_pool [0 := ?F]"
    by (simp add: P2 free_plqu_def)
  have PF: "static_pool [0 := ?F] ! 0 = ?F"
    by (rule static_pool_update_nth) simp
  have nf: "next_free (static_pool [0 := ?F]) = 0"
    by (rule next_free_first) (simp_all add: length_static_pool PF in_use_def)
  have mk: "make_plqu (static_pool [0 := ?F]) = Inr (0, static_pool [0 := ?R])"
    by (simp add: make_plqu_def nf length_static_pool PF)
  have PR: "static_pool [0 := ?R] ! 0 = ?R"
    by (rule static_pool_update_nth) simp
  from free_then_make_empty [OF r2 len used, of 0] obtain h' pool'
    where *: "make_plqu (?P2[0 := free_plqu (?P2 ! 0)]) = Inr (h', pool')"
      and g: "\<forall>n. plqu_get 0 (pool' ! h') n = Inr 0"
    by blast
  from * have "h' = 0" and "pool' = static_pool [0 := ?R]"
    by (simp_all add: P2 free_plqu_def mk)
  with g have "plqu_get 0 (static_pool [0 := ?R] ! 0) 1 = Inr 0"
    by blast
  then have "plqu_get 0 ?R 1 = Inr 0"
    by (simp only: PR)
  moreover have "plqu_get 0 ?Q 1 = Inr 5"
    by (simp add: plqu_get_def load_def)
  moreover from mk fr have "make_plqu (?P2[0 := free_plqu ?Q]) = Inr (0, static_pool [0 := ?R])"
    by (simp add: P2)
  ultimately show ?thesis
    using r2 len used by simp
qed

lemma pool_prefix_reachable:
  "k \<le> 256 \<Longrightarrow>
   reachable (replicate k \<lparr>z = - 1, a = [], head = 0, tail = 0\<rparr> @
              replicate (256 - k) \<lparr>z = 0, a = [], head = 0, tail = 0\<rparr>)"
proof (induction k)
  case 0
  show ?case
    using reachable.init by (simp add: static_pool_def)
next
  case (Suc k)
  let ?U = "\<lparr>z = - 1, a = [], head = 0, tail = 0\<rparr> :: 'a plqu_s"
  let ?F = "\<lparr>z = 0, a = [], head = 0, tail = 0\<rparr> :: 'a plqu_s"
  let ?P = "replicate k ?U @ replicate (256 - k) ?F"
  from Suc.prems have k: "k < 256"
    by simp
  then obtain m where m: "256 - k = Suc m"
    by (cases "256 - k") simp_all
  from Suc.IH k have r: "reachable ?P"
    by simp
  have len: "length ?P = 256"
    using k by simp
  have nth: "?P ! k = ?F"
    by (simp add: nth_append m)
  have used: "in_use (?P ! j)" if "j < k" for j
    using that by (simp add: nth_append in_use_def)
  have free: "\<not> in_use (?P ! k)"
    by (simp add: nth in_use_def)
  have "next_free ?P \<le> k"
    by (rule next_free_le) (simp_all add: len k free)
  moreover have "\<not> next_free ?P < k"
  proof
    assume lt: "next_free ?P < k"
    with k len next_free_from_spec [of 0 ?P] have "\<not> in_use (?P ! next_free ?P)"
      by (simp add: next_free_def)
    with used [OF lt] show False by simp
  qed
  ultimately have nf: "next_free ?P = k"
    by simp
  have "make_plqu ?P = Inr (k, ?P[k := (?P ! k)\<lparr>z := z (?P ! k) - 1\<rparr>])"
    using k len by (simp only: make_plqu_def nf Let_def if_True)
  moreover have "?P[k := (?P ! k)\<lparr>z := z (?P ! k) - 1\<rparr>] =
      replicate (Suc k) ?U @ replicate (256 - Suc k) ?F"
    unfolding nth using m by (auto simp: list_update_append replicate_app_Cons_same)
  ultimately have "make_plqu ?P = Inr (k, replicate (Suc k) ?U @ replicate (256 - Suc k) ?F)"
    by simp
  with r show ?case
    by (rule reachable.make)
qed

lemma full_pool_reachable:
  "reachable (replicate 256 \<lparr>z = - 1, a = [], head = 0, tail = 0\<rparr>)"
  using pool_prefix_reachable [of 256] by simp

text \<open>
  C1. With every slot of the pool in use, \<open>_next_free\<close> returns the size of the array and
  \<open>make_plqu\<close> goes on to decrement the \<open>z\<close> of the element behind the last one: the code has
  no test for this case and no error that it could return.
\<close>

theorem make_plqu_pool_full:
  assumes "\<forall>qu \<in> set pool. in_use qu"
  shows "next_free pool = length pool \<and> make_plqu pool = Inl OutOfBounds"
proof -
  have "next_free pool = length pool"
  proof (rule ccontr)
    assume "next_free pool \<noteq> length pool"
    with next_free_from_spec [of 0 pool] have lt: "next_free pool < length pool"
      and "\<not> in_use (pool ! next_free pool)"
      by (simp_all add: next_free_def)
    moreover from lt assms have "in_use (pool ! next_free pool)"
      by simp
    ultimately show False
      by simp
  qed
  then show ?thesis
    by (simp add: make_plqu_def)
qed

theorem make_plqu_pool_full_witness:
  "reachable (replicate 256 \<lparr>z = - 1, a = [] :: nat list, head = 0, tail = 0\<rparr>) \<and>
   in_use \<lparr>z = - 1, a = [] :: nat list, head = 0, tail = 0\<rparr> \<and>
   next_free (replicate 256 \<lparr>z = - 1, a = [] :: nat list, head = 0, tail = 0\<rparr>) = 256 \<and>
   make_plqu (replicate 256 \<lparr>z = - 1, a = [] :: nat list, head = 0, tail = 0\<rparr>) = Inl OutOfBounds"
proof -
  let ?U = "\<lparr>z = - 1, a = [] :: nat list, head = 0, tail = 0\<rparr>"
  have u: "in_use ?U"
    by (simp add: in_use_def)
  then have "\<forall>qu \<in> set (replicate 256 ?U). in_use qu"
    by simp
  from make_plqu_pool_full [OF this] u full_pool_reachable [where 'a = nat] show ?thesis
    by simp
qed

subsection \<open>Runs of appends\<close>

lemma take_Suc_update: "n < length xs \<Longrightarrow> take (Suc n) (xs[n := x]) = take n xs @ [x]"
  by (simp add: take_Suc_conv_app_nth)

lemma add_store_filled:
  assumes "queue_ok qu" and "head qu = 0" and "tail qu = word_of_nat (length ys)"
    and "length ys < 2 ^ 63" and "length ys < length (a qu)" and "take (length ys) (a qu) = ys"
  shows "\<exists>qu'. plqu_add_store qu x = Inr (word_of_nat (Suc (length ys)), qu') \<and>
               filled qu' (ys @ [x])"
proof -
  let ?n = "length ys"
  from assms(5) have ne: "a qu \<noteq> []"
    by auto
  from assms(4) have u: "unat (tail qu) = ?n"
    by (simp add: assms(3) unat_of_nat64)
  let ?qu' = "qu\<lparr>a := (a qu)[?n := x], tail := tail qu + 1\<rparr>"
  have "plqu_add_store qu x = Inr (tail qu + 1, ?qu')"
    using add_store_ok [OF assms(1) ne, of x] assms(5) by (simp add: u)
  moreover have "tail qu + 1 = word_of_nat (Suc ?n)"
    by (simp add: assms(3))
  moreover have "queue_ok ?qu'"
    by (rule queue_ok_update [OF assms(1) ne]) simp
  moreover have "take (Suc ?n) ((a qu)[?n := x]) = ys @ [x]"
    using assms(5,6) by (simp only: take_Suc_update)
  ultimately have "plqu_add_store qu x = Inr (word_of_nat (Suc ?n), ?qu') \<and> filled ?qu' (ys @ [x])"
    using assms(2,4,5) by (simp add: filled_def)
  then show ?thesis ..
qed

lemma plqu_add_filled:
  assumes "filled qu ys" and "length ys < 2 ^ 63"
  shows "\<exists>qu'. plqu_add qu x (Some junk) = Inr (word_of_nat (Suc (length ys)), qu') \<and>
               filled qu' (ys @ [x])"
proof -
  let ?n = "length ys"
  from assms(1) have ok: "queue_ok qu" and h: "head qu = 0" and t: "tail qu = word_of_nat ?n"
    and le: "?n \<le> length (a qu)" and tk: "take ?n (a qu) = ys"
    by (simp_all add: filled_def)
  from assms(2) have un: "unat (word_of_nat ?n :: 64 word) = ?n"
    by (simp add: unat_of_nat64)
  show ?thesis
  proof (cases "z qu + 1 \<le> tail qu - head qu")
    case False
    with ok have ne: "a qu \<noteq> []"
      by (rule not_full_nonempty)
    with ok obtain k where k: "k < 64" "z qu = mask k" "length (a qu) = 2 ^ k"
      by (auto simp: queue_ok_def)
    from False have "\<not> 2 ^ k \<le> ?n"
      by (simp add: h t k(2) inc_mask_eq_exp word_le_nat_alt un unat_exp64 [OF k(1)])
    with k(3) have "?n < length (a qu)"
      by simp
    from add_store_filled [OF ok h t assms(2) this tk, of x] False show ?thesis
      by (simp add: plqu_add_def)
  next
    case True
    have "\<exists>q1. plqu_add_resize qu (Some junk) = Inr (Some q1) \<and> ?n < length (a q1) \<and>
               take ?n (a q1) = ys"
    using ok proof (cases rule: queue_ok_cases)
      case fresh
      from resize_fresh [OF fresh(1,2), of junk] obtain buf
        where "plqu_add_resize qu (Some junk) = Inr (Some (qu\<lparr>a := buf, z := mask 3\<rparr>))"
          and "length buf = 2 ^ 3"
        by blast
      moreover from le fresh(2) have "ys = []"
        by simp
      ultimately show ?thesis
        by auto
    next
      case (grown k)
      from True have "2 ^ k \<le> ?n"
        by (simp add: h t grown(3) inc_mask_eq_exp word_le_nat_alt un unat_exp64 [OF grown(2)])
      with le grown(4) have n: "?n = 2 ^ k"
        by simp
      have "k < 63"
      proof (rule ccontr)
        assume "\<not> k < 63"
        then have "(2 :: nat) ^ 63 \<le> 2 ^ k"
          by (simp only: power_increasing_iff)
        with n assms(2) show False
          by simp
      qed
      from resize_grown [OF grown(3,4) this, of junk]
      have "plqu_add_resize qu (Some junk) = Inr (Some (qu\<lparr>a := a qu @ a qu, z := mask (Suc k)\<rparr>))" .
      moreover from n grown(4) tk have "take ?n (a qu @ a qu) = ys" and "?n < length (a qu @ a qu)"
        by simp_all
      ultimately show ?thesis
        by simp
    qed
    then obtain q1 where r: "plqu_add_resize qu (Some junk) = Inr (Some q1)"
      and lt1: "?n < length (a q1)" and tk1: "take ?n (a q1) = ys"
      by blast
    from resize_queue_ok [OF ok r] h t have ok1: "queue_ok q1" and h1: "head q1 = 0"
      and t1: "tail q1 = word_of_nat ?n"
      by simp_all
    from add_store_filled [OF ok1 h1 t1 assms(2) lt1 tk1, of x] True r show ?thesis
      by (simp add: plqu_add_def)
  qed
qed

lemma plqu_add_all_filled:
  assumes "filled qu ys" and "length ys + length xs \<le> 2 ^ 63" and "length js = length xs"
  shows "\<exists>qu'. plqu_add_all qu (zip xs (map Some js)) =
                 Inr (map word_of_nat [Suc (length ys)..<Suc (length ys + length xs)], qu') \<and>
               filled qu' (ys @ xs)"
  using assms
proof (induction xs arbitrary: qu ys js)
  case Nil
  then show ?case
    by simp
next
  case (Cons x xs)
  from Cons.prems(3) obtain j js' where js: "js = j # js'" and len: "length js' = length xs"
    by (cases js) simp_all
  from Cons.prems(2) have lt: "length ys < 2 ^ 63"
    by simp
  from plqu_add_filled [OF Cons.prems(1) lt, of x j] obtain q1
    where a1: "plqu_add qu x (Some j) = Inr (word_of_nat (Suc (length ys)), q1)"
      and f1: "filled q1 (ys @ [x])"
    by blast
  from Cons.prems(2) have "length (ys @ [x]) + length xs \<le> 2 ^ 63"
    by simp
  from Cons.IH [OF f1 this len] obtain q2
    where a2: "plqu_add_all q1 (zip xs (map Some js')) =
        Inr (map word_of_nat [Suc (length (ys @ [x]))..<Suc (length (ys @ [x]) + length xs)], q2)"
      and f2: "filled q2 ((ys @ [x]) @ xs)"
    by blast
  have "[Suc (length ys)..<Suc (length ys + length (x # xs))] =
      Suc (length ys) # [Suc (length (ys @ [x]))..<Suc (length (ys @ [x]) + length xs)]"
    by (subst upt_conv_Cons) simp_all
  with a1 a2 f2 js show ?case
    by simp
qed

lemma filled_get:
  assumes "filled qu ys" and "1 \<le> k" and "k \<le> length ys"
  shows "plqu_get nil qu (word_of_nat k) = Inr (ys ! (k - 1))"
proof -
  let ?n = "length ys"
  from assms(1) have ok: "queue_ok qu" and h: "head qu = 0" and t: "tail qu = word_of_nat ?n"
    and n63: "?n \<le> 2 ^ 63" and le: "?n \<le> length (a qu)" and tk: "take ?n (a qu) = ys"
    by (simp_all add: filled_def)
  from assms(3) n63 have k63: "k \<le> 2 ^ 63" and k1: "k - 1 \<le> 2 ^ 63"
    by simp_all
  have uk: "unat (word_of_nat k :: 64 word) = k" and un: "unat (word_of_nat ?n :: 64 word) = ?n"
    and uk1: "unat (word_of_nat (k - 1) :: 64 word) = k - 1"
    using k63 n63 k1 by (simp_all only: unat_of_nat64)
  from assms(2) have "(word_of_nat k :: 64 word) = word_of_nat (k - 1) + 1"
    by (cases k) simp_all
  then have pred: "(word_of_nat k :: 64 word) - 1 = word_of_nat (k - 1)"
    by simp
  from assms(2,3) le have ne: "a qu \<noteq> []"
    by auto
  from assms(2,3) have rng: "head qu < word_of_nat k \<and> word_of_nat k \<le> tail qu"
    by (simp add: h t word_less_nat_alt word_le_nat_alt uk un)
  from assms(2,3) le have "k - 1 < length (a qu)"
    by simp
  then have "(k - 1) mod length (a qu) = k - 1"
    by simp
  with load_ok [OF ok ne, of "word_of_nat (k - 1)"]
  have "load (a qu) (word_of_nat (k - 1) AND z qu) = Inr (a qu ! (k - 1))"
    by (simp only: uk1)
  moreover from assms(2,3) have "take ?n (a qu) ! (k - 1) = a qu ! (k - 1)"
    by simp
  ultimately show ?thesis
    using rng by (simp add: plqu_get_def pred tk)
qed

text \<open>
  C3. On a well-formed queue with \<open>head = tail = 0\<close>, as \<open>make_plqu\<close> hands it out, a run of
  \<open>N\<close> appends whose allocations all succeed returns the ids \<open>1, \<dots>, N\<close> in this order, ends
  with \<open>tail = N\<close>, and afterwards \<open>plqu_get\<close> returns the \<open>k\<close>-th value for every \<open>k\<close> from 1 to
  \<open>N\<close>. \<open>N\<close> is at most \<open>2 ^ 63\<close>: a buffer for more values would need \<open>2 ^ 64\<close> elements, a
  count that \<open>size_t\<close> cannot hold.
\<close>

theorem plqu_add_all_get:
  assumes "queue_ok qu" and "head qu = 0" and "tail qu = 0"
    and "length xs \<le> 2 ^ 63" and "length js = length xs"
  shows "\<exists>qu'. plqu_add_all qu (zip xs (map Some js)) =
                 Inr (map word_of_nat [1..<Suc (length xs)], qu') \<and>
               head qu' = 0 \<and> tail qu' = word_of_nat (length xs) \<and>
               (\<forall>k. 1 \<le> k \<and> k \<le> length xs \<longrightarrow>
                  plqu_get nil qu' (word_of_nat k) = Inr (xs ! (k - 1)))"
proof -
  from assms(1,2,3) have "filled qu []"
    by (simp add: filled_def)
  from plqu_add_all_filled [OF this, of xs js] assms(4,5) obtain qu'
    where run: "plqu_add_all qu (zip xs (map Some js)) =
        Inr (map word_of_nat [1..<Suc (length xs)], qu')"
      and f: "filled qu' xs"
    by auto
  from f have "head qu' = 0" and "tail qu' = word_of_nat (length xs)"
    by (simp_all add: filled_def)
  moreover have "\<forall>k. 1 \<le> k \<and> k \<le> length xs \<longrightarrow>
      plqu_get nil qu' (word_of_nat k) = Inr (xs ! (k - 1))"
    using filled_get [OF f] by blast
  ultimately show ?thesis
    using run by blast
qed

theorem plqu_add_all_get_witness:
  "queue_ok \<lparr>z = - 1, a = [] :: nat list, head = 0, tail = 0\<rparr> \<and>
   length [11, 12, 13, 14, 15, 16, 17, 18, 19 :: nat] \<le> 2 ^ 63 \<and>
   length (replicate 9 (\<lambda>k :: nat. 0 :: nat)) = length [11, 12, 13, 14, 15, 16, 17, 18, 19 :: nat] \<and>
   (\<exists>qu'. plqu_add_all \<lparr>z = - 1, a = [] :: nat list, head = 0, tail = 0\<rparr>
             (zip [11, 12, 13, 14, 15, 16, 17, 18, 19] (map Some (replicate 9 (\<lambda>k. 0)))) =
             Inr ([1, 2, 3, 4, 5, 6, 7, 8, 9], qu') \<and>
           tail qu' = 9 \<and> plqu_get 0 qu' 1 = Inr 11 \<and> plqu_get 0 qu' 8 = Inr 18 \<and>
           plqu_get 0 qu' 9 = Inr 19)"
proof -
  let ?U = "\<lparr>z = - 1, a = [] :: nat list, head = 0, tail = 0\<rparr>"
  let ?xs = "[11, 12, 13, 14, 15, 16, 17, 18, 19 :: nat]"
  let ?js = "replicate 9 (\<lambda>k :: nat. 0 :: nat)"
  have ok: "queue_ok ?U"
    by (simp add: queue_ok_def)
  have h: "head ?U = 0" and t: "tail ?U = 0"
    by simp_all
  have n: "length ?xs \<le> 2 ^ 63" and l: "length ?js = length ?xs"
    by simp_all
  have ids: "map word_of_nat [1..<Suc (length ?xs)] = [1, 2, 3, 4, 5, 6, 7, 8, 9 :: 64 word]"
    by (simp add: upt_rec_numeral)
  from plqu_add_all_get [OF ok h t n l, of 0] obtain qu'
    where run: "plqu_add_all ?U (zip ?xs (map Some ?js)) =
        Inr (map word_of_nat [1..<Suc (length ?xs)], qu')"
      and tl: "tail qu' = word_of_nat (length ?xs)"
      and get: "\<forall>k. 1 \<le> k \<and> k \<le> length ?xs \<longrightarrow>
        plqu_get 0 qu' (word_of_nat k) = Inr (?xs ! (k - 1))"
    by blast
  from get [rule_format, of 1] get [rule_format, of 8] get [rule_format, of 9]
  have "plqu_get 0 qu' 1 = Inr 11" and "plqu_get 0 qu' 8 = Inr 18" and "plqu_get 0 qu' 9 = Inr 19"
    by simp_all
  moreover from run have "plqu_add_all ?U (zip ?xs (map Some ?js)) =
      Inr ([1, 2, 3, 4, 5, 6, 7, 8, 9], qu')"
    by (simp only: ids)
  moreover from tl have "tail qu' = 9"
    by simp
  ultimately have "\<exists>qu'. plqu_add_all ?U (zip ?xs (map Some ?js)) =
             Inr ([1, 2, 3, 4, 5, 6, 7, 8, 9], qu') \<and>
           tail qu' = 9 \<and> plqu_get 0 qu' 1 = Inr 11 \<and> plqu_get 0 qu' 8 = Inr 18 \<and>
           plqu_get 0 qu' 9 = Inr 19"
    by blast
  with ok n l show ?thesis
    by (intro conjI)
qed

end
